theory Spec2Isabelle
  imports Main "HOL-Library.Word"
begin

unbundle bit_operations_syntax

section \<open>The command processor of the gauge firmware\<close>

text \<open>
  A shallow embedding of \<^verbatim>\<open>src/firmware/CommandProcessor/CommandProcessor.c\<close>.
  The file-static variables of the C file become the fields of one record, every C
  function becomes a function on that record, and every call the processor makes through
  a function pointer (\<^verbatim>\<open>cfg.putch\<close>, \<^verbatim>\<open>cfg.puts\<close>, a command callback) is appended to a
  trace, so that what was written and which callback ran with which argument can be read
  off the resulting state.
\<close>

subsection \<open>Types of CommandProcessor.h\<close>

datatype VISIBLE_T = invisible | visible

datatype RUNRESULT_T = runexit | runok

datatype ADDRESULT_T = addfailed | addok

datatype INITRESULT_T = initfailed | initok

type_synonym CONFIG_T = "32 word"

definition CFG_ENABLE_TERMINATE :: CONFIG_T where "CFG_ENABLE_TERMINATE = 0x0001"
definition CFG_ENABLE_SYSTEM :: CONFIG_T where "CFG_ENABLE_SYSTEM = 0x0002"
definition CFG_ECHO_ON :: CONFIG_T where "CFG_ECHO_ON = 0x2000"
definition CFG_CASE_INSENSITIVE :: CONFIG_T where "CFG_CASE_INSENSITIVE = 0x4000"

text \<open>
  A callback is one of the four functions CommandProcessor.c defines itself (they read and
  write the static variables) or a function of the host program. A host function takes the
  argument string and returns a continue/exit signal; the static variables of
  CommandProcessor.c are out of its reach.
\<close>

datatype MENU_CALLBACK =
    builtin_Help
  | builtin_History
  | builtin_Echo
  | builtin_Exit
  | host "string \<Rightarrow> RUNRESULT_T"

record CMD_T =
  command :: string
  helptext :: string
  callback :: MENU_CALLBACK
  visibility :: VISIBLE_T

text \<open>
  The memory faults the C code can run into: a write past the end of an allocation or of a
  local array, a read past the end of a string constant, a null pointer dereferenced.
\<close>

datatype fault = Overrun | OutOfBounds | NullPointer

text \<open>The calls made through the function pointers of the I/O port and of the commands.\<close>

datatype call =
    Putch int
  | Puts string
  | Invoke string string

subsection \<open>The static variables\<close>

text \<open>
  \<^item> \<open>head\<close> is the singly linked list of command links, first link first.
  \<^item> \<open>buffer\<close> is the C string held by the line buffer (the bytes before its first NUL);
    the allocation is \<open>bufferSize\<close> bytes long.
  \<^item> \<open>historyBuffer\<close> maps a slot number \<open>i\<close> to the C string that starts at byte
    \<open>i * bufferSize\<close> of the history allocation. The allocation is meant to hold the slots
    \<open>0 .. historyDepth - 1\<close>; a slot number outside that range addresses memory outside
    the allocation, which the code does read in one place (slot \<open>-1\<close> when the history is
    empty), so the map is total: slot \<open>-1\<close> stands for the bytes in front of the
    allocation, whatever they are.
  \<^item> the members of \<open>cfg\<close> keep their names. The four I/O function pointers
    \<open>cfg.kbhit\<close>, \<open>cfg.getch\<close>, \<open>cfg.putch\<close> and \<open>cfg.puts\<close> are assigned together, by
    a successful \<open>Init\<close> only, and are NULL before: \<open>port\<close> says whether they hold
    functions. What the functions do is the trace and the input argument of
    \<open>CommandProcessor_Run\<close>.
  \<^item> \<open>keycount\<close> is never decremented below zero by the code (each decrement is guarded),
    so it is a natural number; the other counters are C ints.
\<close>

record processor =
  head :: "CMD_T list"
  buffer :: string
  historyBuffer :: "int \<Rightarrow> string"
  historyCount :: int
  historyDepth :: int
  longestCommand :: nat
  SignOnBanner :: "CMD_T option"
  showSignOnBanner :: bool
  caseinsensitive :: bool
  echo :: bool
  bufferSize :: int
  port :: bool
  keycount :: nat
  leadinChar :: bool
  whereInHistory :: int
  showPrompt :: bool
  trace :: "call list"

subsection \<open>Helper functions: characters and C strings\<close>

text \<open>
  A character is a byte; \<open>ord\<close> is its value as an unsigned char (the ARM target's plain
  char is unsigned). A \<open>char *\<close> walking along a string is the rest of the string:
  \<open>deref\<close> reads the byte it points at (the terminating NUL once the characters are
  used up) and \<open>tl\<close> advances it.
\<close>

definition ord :: "char \<Rightarrow> int" where
  "ord c = of_char c"

definition NUL :: char where
  "NUL = CHR 0x00"

definition deref :: "string \<Rightarrow> char" where
  "deref p = (case p of [] \<Rightarrow> NUL | c # _ \<Rightarrow> c)"

definition mytolower :: "char \<Rightarrow> char" where
  "mytolower a =
     (if ord a \<ge> ord CHR ''A'' \<and> ord a \<le> ord CHR ''Z''
      then char_of (ord a - ord CHR ''A'' + ord CHR ''a'')
      else a)"

text \<open>The do-while loop of \<open>mystrnicmp\<close>; it is entered with \<open>n \<noteq> 0\<close> only.\<close>

fun mystrnicmp_loop :: "string \<Rightarrow> string \<Rightarrow> nat \<Rightarrow> int" where
  "mystrnicmp_loop l r n =
     (let result = ord (mytolower (deref l)) - ord (mytolower (deref r)) in
      if result = 0 \<and> deref (tl l) \<noteq> NUL \<and> n - 1 > 0
      then mystrnicmp_loop (tl l) (tl r) (n - 1)
      else result)"

declare mystrnicmp_loop.simps [simp del]

definition mystrnicmp :: "string \<Rightarrow> string \<Rightarrow> nat \<Rightarrow> int" where
  "mystrnicmp l r n =
     (let result = (if n \<noteq> 0 then mystrnicmp_loop l r n else 0) in
      if result < -1 then -1 else if result > 1 then 1 else result)"

text \<open>\<open>strncmp\<close> of the C library: at most \<open>n\<close> bytes, stopping after a NUL.\<close>

fun strncmp :: "string \<Rightarrow> string \<Rightarrow> nat \<Rightarrow> int" where
  "strncmp l r n =
     (if n = 0 then 0
      else if deref l \<noteq> deref r then ord (deref l) - ord (deref r)
      else if deref l = NUL then 0
      else strncmp (tl l) (tl r) (n - 1))"

declare strncmp.simps [simp del]

text \<open>\<open>strchr\<close>: the offset of the first occurrence of a character, if there is one.\<close>

definition strchr :: "string \<Rightarrow> char \<Rightarrow> nat option" where
  "strchr s c = (if c \<in> set s then Some (length (takeWhile (\<lambda>x. x \<noteq> c) s)) else None)"

definition myisprint :: "int \<Rightarrow> bool" where
  "myisprint c = (c \<ge> ord CHR '' '' \<and> c \<le> ord CHR ''~'')"

subsection \<open>Output\<close>

definition putch :: "int \<Rightarrow> processor \<Rightarrow> processor" where
  "putch ch s = s\<lparr>trace := trace s @ [Putch ch]\<rparr>"

definition puts :: "string \<Rightarrow> processor \<Rightarrow> processor" where
  "puts str s = s\<lparr>trace := trace s @ [Puts str]\<rparr>"

fun EchoString :: "string \<Rightarrow> processor \<Rightarrow> processor" where
  "EchoString [] s = s"
| "EchoString (c # p) s = EchoString p (putch (ord c) s)"

fun EraseChars :: "nat \<Rightarrow> processor \<Rightarrow> processor" where
  "EraseChars 0 s = s"
| "EraseChars (Suc k) s = EraseChars k (putch 0x08 (putch (ord CHR '' '') (putch 0x08 s)))"

subsection \<open>Add\<close>

text \<open>
  The search loop of \<open>CommandProcessor_Add\<close>: the number of links it steps over before it
  stops at the first link whose name does not compare below the new name. After \<open>k\<close> steps
  \<open>ptr\<close> is link \<open>k\<close> and \<open>prev\<close> is link \<open>k - 1\<close> (link \<open>0\<close>, the head, when no step was
  taken).
\<close>

fun search_steps :: "CMD_T \<Rightarrow> CMD_T list \<Rightarrow> nat" where
  "search_steps menu [] = 0"
| "search_steps menu (ptr # rest) =
     (if mystrnicmp (command ptr) (command menu) (length (command menu)) < 0
      then Suc (search_steps menu rest)
      else 0)"

text \<open>
  \<open>got\<close> says whether \<open>malloc\<close> returned storage for the link. The test \<open>prev == head\<close>
  compares pointers to links: it holds when \<open>prev\<close> is link \<open>0\<close>, that is after no step and
  after one step alike.
\<close>

definition CommandProcessor_Add :: "CMD_T \<Rightarrow> bool \<Rightarrow> processor \<Rightarrow> ADDRESULT_T \<times> processor" where
  "CommandProcessor_Add menu got s =
     (let s1 = (if length (command menu) > longestCommand s
                then s\<lparr>longestCommand := length (command menu)\<rparr> else s)
      in if \<not> got then (addfailed, s1)
         else if head s1 = [] then (addok, s1\<lparr>head := [menu]\<rparr>)
         else
           (let k = search_steps menu (head s1);
                prev = k - 1
            in if prev = 0 then (addok, s1\<lparr>head := menu # head s1\<rparr>)
               else (addok, s1\<lparr>head := take k (head s1) @ menu # drop k (head s1)\<rparr>)))"

subsection \<open>Writes into the two buffers\<close>

text \<open>
  \<open>strcpy\<close> into the line buffer writes the characters and the terminating NUL; the
  allocation is \<open>bufferSize\<close> bytes (\<open>malloc(maxCmdLen)\<close> in \<open>CommandProcessor_Init\<close>).
\<close>

definition strcpy_buffer :: "string \<Rightarrow> processor \<Rightarrow> fault + processor" where
  "strcpy_buffer src s =
     (if int (length src) + 1 \<le> bufferSize s then Inr (s\<lparr>buffer := src\<rparr>) else Inl Overrun)"

text \<open>
  \<open>buffer[i] = '\0'\<close>: the string is cut at \<open>i\<close> (it is unchanged when its own NUL comes
  earlier).
\<close>

definition terminate_at :: "nat \<Rightarrow> processor \<Rightarrow> fault + processor" where
  "terminate_at i s =
     (if int i < bufferSize s then Inr (s\<lparr>buffer := take i (buffer s)\<rparr>) else Inl Overrun)"

text \<open>
  \<open>buffer[i] = c; buffer[i + 1] = '\0'\<close> for a character \<open>c\<close> that is not NUL: the two
  writes as one step, since the bytes between them are not read. When \<open>i\<close> lies behind the
  string's NUL the string stays what it was.
\<close>

definition store_char :: "nat \<Rightarrow> char \<Rightarrow> processor \<Rightarrow> fault + processor" where
  "store_char i c s =
     (if int i + 1 < bufferSize s
      then Inr (s\<lparr>buffer := (if i \<le> length (buffer s) then take i (buffer s) @ [c] else buffer s)\<rparr>)
      else Inl Overrun)"

text \<open>
  The history allocation is \<open>malloc(historyDepth * maxCmdLen)\<close>: the product is computed
  in \<open>int\<close> and passed as a \<open>size_t\<close>, 32 bits wide on the target, so the number of bytes
  asked for is the product modulo \<open>2 ^ 32\<close>.
\<close>

definition history_bytes :: "processor \<Rightarrow> int" where
  "history_bytes s = (historyDepth s * bufferSize s) mod 2 ^ 32"

text \<open>
  \<open>strcpy\<close> into history slot \<open>i\<close>, which starts at byte \<open>i * bufferSize\<close>. The slots are
  \<open>0 .. historyDepth - 1\<close>, \<open>bufferSize\<close> bytes each; a copy that is longer than its slot
  runs into the next slot or out of the allocation and is a fault here in both cases, and
  so is a copy that ends behind the last allocated byte.
\<close>

definition strcpy_history :: "int \<Rightarrow> string \<Rightarrow> processor \<Rightarrow> fault + processor" where
  "strcpy_history i src s =
     (if 0 \<le> i \<and> i < historyDepth s \<and> int (length src) + 1 \<le> bufferSize s
         \<and> i * bufferSize s + int (length src) + 1 \<le> history_bytes s
      then Inr (s\<lparr>historyBuffer := (historyBuffer s)(i := src)\<rparr>)
      else Inl Overrun)"

subsection \<open>CommandMatches\<close>

text \<open>
  The scan over the links. It carries \<open>foundCount\<close> and what has been written through the
  pointers \<open>menu\<close> and \<open>params\<close> so far (both callers pass the addresses of locals that
  start out \<open>NULL\<close>). \<open>space\<close> is the text \<open>*params\<close> is set to point at.
\<close>

fun match_links ::
  "bool \<Rightarrow> string \<Rightarrow> nat \<Rightarrow> string \<Rightarrow> CMD_T list \<Rightarrow>
   int \<times> CMD_T option \<times> string option \<Rightarrow> int \<times> CMD_T option \<times> string option" where
  "match_links ci buf compareLength space [] found = found"
| "match_links ci buf compareLength space (link # rest) (foundCount, menu, params) =
     (let cmpResult = (if ci then mystrnicmp buf (command link) compareLength
                       else strncmp buf (command link) compareLength)
      in match_links ci buf compareLength space rest
           (if 0 = cmpResult then (foundCount + 1, Some link, Some space)
            else (foundCount, menu, params)))"

text \<open>The comparison length and the text after the delimiter, as the first lines compute them.\<close>

definition compareLength_of :: "string \<Rightarrow> nat" where
  "compareLength_of buf = (case strchr buf CHR '' '' of Some i \<Rightarrow> i | None \<Rightarrow> length buf)"

definition space_of :: "string \<Rightarrow> string" where
  "space_of buf = (case strchr buf CHR '' '' of Some i \<Rightarrow> drop (i + 1) buf | None \<Rightarrow> [])"

text \<open>
  \<open>exec\<close> is the caller's intent to execute; \<open>got\<close> says whether \<open>malloc\<close> returns storage
  for \<open>alternateBuffer\<close>, should the function ask for it. The result is \<open>foundCount\<close>, the
  values left in \<open>*menu\<close> and \<open>*params\<close>, and the state.
\<close>

definition CommandMatches ::
  "bool \<Rightarrow> bool \<Rightarrow> processor \<Rightarrow> fault + (int \<times> CMD_T option \<times> string option \<times> processor)" where
  "CommandMatches exec got s =
     (if length (buffer s) = 0 then Inr (0, None, None, s)
      else
        (case match_links (caseinsensitive s) (buffer s) (compareLength_of (buffer s))
                (space_of (buffer s)) (head s) (0, None, None) of
           (foundCount, menu, params) \<Rightarrow>
             if foundCount = 1 \<and> exec then
               (case menu of
                  None \<Rightarrow> Inl NullPointer
                | Some m \<Rightarrow>
                    (let diff = int (length (command m)) - int (compareLength_of (buffer s)) in
                     if diff > 0 \<or> 0 \<noteq> strncmp (buffer s) (command m) (compareLength_of (buffer s))
                     then
                       if \<not> got then Inl NullPointer
                       else
                         (let alternateBuffer = command m @ '' '' @ space_of (buffer s) in
                          if int (length alternateBuffer) + 1 > bufferSize s then Inl Overrun
                          else
                            (case strcpy_buffer alternateBuffer (EraseChars (length (buffer s)) s) of
                               Inl e \<Rightarrow> Inl e
                             | Inr s1 \<Rightarrow>
                                 (let s2 = EchoString (buffer s1) s1 in
                                  Inr (foundCount, menu, Some (space_of (buffer s2)), s2))))
                     else Inr (foundCount, menu, params, s)))
             else Inr (foundCount, menu, params, s)))"

subsection \<open>The built-in commands\<close>

text \<open>\<open>sprintf\<close> into a local \<open>char[100]\<close>: the text and its NUL have to fit.\<close>

definition sprintf_local :: "string \<Rightarrow> fault + string" where
  "sprintf_local str = (if length str + 1 \<le> 100 then Inr str else Inl Overrun)"

fun digits :: "nat \<Rightarrow> string" where
  "digits n =
     (if n < 10 then [char_of (48 + n)] else digits (n div 10) @ [char_of (48 + n mod 10)])"

declare digits.simps [simp del]

text \<open>The conversions \<open>%2i\<close> and \<open>%-*s\<close>.\<close>

definition format_2i :: "int \<Rightarrow> string" where
  "format_2i i =
     (let str = (if i < 0 then CHR ''-'' # digits (nat (- i)) else digits (nat i))
      in replicate (2 - length str) CHR '' '' @ str)"

definition format_left :: "nat \<Rightarrow> string \<Rightarrow> string" where
  "format_left width str = str @ replicate (width - length str) CHR '' ''"

fun History_lines :: "int list \<Rightarrow> processor \<Rightarrow> fault + processor" where
  "History_lines [] s = Inr s"
| "History_lines (i # rest) s =
     (case sprintf_local (''  '' @ format_2i (i - historyCount s) @ '': '' @ historyBuffer s i) of
        Inl e \<Rightarrow> Inl e
      | Inr buf \<Rightarrow> History_lines rest (puts buf s))"

definition History :: "string \<Rightarrow> processor \<Rightarrow> fault + (RUNRESULT_T \<times> processor)" where
  "History p s =
     (case History_lines [0 .. historyCount s - 1] (puts [] s) of
        Inl e \<Rightarrow> Inl e
      | Inr s1 \<Rightarrow>
          (case sprintf_local (''  '' @ format_2i 0 @ '': '' @ buffer s1) of
             Inl e \<Rightarrow> Inl e
           | Inr buf \<Rightarrow> Inr (runok, puts buf s1)))"

definition CommandProcessor_Echo :: "bool \<Rightarrow> processor \<Rightarrow> RUNRESULT_T \<times> processor" where
  "CommandProcessor_Echo e s = (runok, s\<lparr>echo := e\<rparr>)"

definition Echo :: "string \<Rightarrow> processor \<Rightarrow> fault + (RUNRESULT_T \<times> processor)" where
  "Echo p s =
     (let s1 = (if deref p \<noteq> NUL then
                  (let s' = (if deref p = CHR ''1'' \<or> mystrnicmp p ''on'' 2 = 0
                             then snd (CommandProcessor_Echo True s) else s)
                   in if deref p = CHR ''0'' \<or> mystrnicmp p ''off'' 3 = 0
                      then snd (CommandProcessor_Echo False s') else s')
                else s)
      in if echo s1 then Inr (runok, puts [CHR 0x0D, CHR 0x0A, CHR ''E'', CHR ''c'', CHR ''h'', CHR ''o'',
                                          CHR '' '', CHR ''i'', CHR ''s'', CHR '' '', CHR ''o'', CHR ''n''] s1)
         else Inr (runok, puts [CHR 0x0D, CHR 0x0A, CHR ''E'', CHR ''c'', CHR ''h'', CHR ''o'',
                                CHR '' '', CHR ''i'', CHR ''s'', CHR '' '', CHR ''o'', CHR ''f'', CHR ''f''] s1))"

definition Exit :: "string \<Rightarrow> processor \<Rightarrow> fault + (RUNRESULT_T \<times> processor)" where
  "Exit p s = Inr (runexit, puts [CHR 0x0D, CHR 0x0A, CHR ''b'', CHR ''y'', CHR ''e'', CHR ''.''] s)"

fun Help_links :: "CMD_T list \<Rightarrow> processor \<Rightarrow> fault + processor" where
  "Help_links [] s = Inr s"
| "Help_links (link # rest) s =
     (if visibility link = visible
         \<and> length (command link) + length (helptext link) + 5 < 100
      then
        (case sprintf_local ('' '' @ format_left (longestCommand s) (command link) @ '': ''
                               @ helptext link) of
           Inl e \<Rightarrow> Inl e
         | Inr buf \<Rightarrow> Help_links rest (puts buf s))
      else Help_links rest s)"

definition Help :: "string \<Rightarrow> processor \<Rightarrow> fault + (RUNRESULT_T \<times> processor)" where
  "Help p s =
     (case Help_links (head s) (puts [CHR 0x0D, CHR 0x0A] s) of
        Inl e \<Rightarrow> Inl e
      | Inr s1 \<Rightarrow> Inr (runok, puts [] s1))"

text \<open>\<open>(*cbk->callback)(params)\<close>: the call is recorded, then the function runs.\<close>

definition call_callback :: "CMD_T \<Rightarrow> string \<Rightarrow> processor \<Rightarrow> fault + (RUNRESULT_T \<times> processor)" where
  "call_callback cbk params s =
     (let s1 = s\<lparr>trace := trace s @ [Invoke (command cbk) params]\<rparr> in
      case callback cbk of
        builtin_Help \<Rightarrow> Help params s1
      | builtin_History \<Rightarrow> History params s1
      | builtin_Echo \<Rightarrow> Echo params s1
      | builtin_Exit \<Rightarrow> Exit params s1
      | host f \<Rightarrow> Inr (f params, s1))"

subsection \<open>Escape sequences\<close>

definition ProcessComplexSequence :: "int \<Rightarrow> processor \<Rightarrow> fault + (int \<times> processor)" where
  "ProcessComplexSequence c s =
     (case
        (if c = 0x42 \<or> c = 0x50 then
           (if historyCount s \<noteq> 0 \<and> whereInHistory s < historyCount s then
              (case strcpy_buffer (historyBuffer s (whereInHistory s)) (EraseChars (keycount s) s) of
                 Inl e \<Rightarrow> Inl e
               | Inr s1 \<Rightarrow>
                   (let s2 = EchoString (buffer s1) s1 in
                    Inr (0, s2\<lparr>keycount := length (buffer s2),
                                whereInHistory := whereInHistory s2 + 1\<rparr>)))
            else Inr (0, s))
         else if c = 0x41 \<or> c = 0x48 then
           (if historyCount s \<noteq> 0 then
              (let s0 = s\<lparr>whereInHistory := whereInHistory s - 1\<rparr> in
               if whereInHistory s0 \<ge> 0 then
                 (case strcpy_buffer (historyBuffer s0 (whereInHistory s0))
                         (EraseChars (keycount s0) s0) of
                    Inl e \<Rightarrow> Inl e
                  | Inr s1 \<Rightarrow>
                      (let s2 = EchoString (buffer s1) s1 in
                       Inr (0, s2\<lparr>keycount := length (buffer s2)\<rparr>)))
               else Inr (0x1B, s0\<lparr>whereInHistory := 0\<rparr>))
            else Inr (0x1B, s\<lparr>whereInHistory := 0\<rparr>))
         else Inr (0, s))
      of
        Inl e \<Rightarrow> Inl e
      | Inr (c', s') \<Rightarrow> Inr (c', s'\<lparr>leadinChar := False\<rparr>))"

subsection \<open>Ordinary characters\<close>

text \<open>
  \<open>mystrcat(buffer, src)\<close> writes \<open>src\<close> and its NUL behind the characters of the line
  buffer.
\<close>

definition mystrcat :: "string \<Rightarrow> processor \<Rightarrow> fault + processor" where
  "mystrcat src s =
     (if int (length (buffer s) + length src) + 1 \<le> bufferSize s
      then Inr (s\<lparr>buffer := buffer s @ src\<rparr>)
      else Inl Overrun)"

text \<open>
  \<open>case 0x09\<close>. The pointer \<open>cbk->command + strlen(buffer)\<close> lies behind the name's NUL
  when the buffer is longer than the name.
\<close>

definition on_tab :: "bool \<Rightarrow> processor \<Rightarrow> fault + processor" where
  "on_tab got s =
     (case CommandMatches False got s of
        Inl e \<Rightarrow> Inl e
      | Inr (foundCount, cbk, params, s1) \<Rightarrow>
          if 1 = foundCount then
            (case cbk of
               None \<Rightarrow> Inl NullPointer
             | Some m \<Rightarrow>
                 if compareLength_of (buffer s1) < length (command m) then
                   if length (buffer s1) > length (command m) then Inl OutOfBounds
                   else
                     (let p = drop (length (buffer s1)) (command m) in
                      case mystrcat p s1 of
                        Inl e \<Rightarrow> Inl e
                      | Inr s2 \<Rightarrow> Inr (EchoString p (s2\<lparr>keycount := length (buffer s2)\<rparr>)))
                 else Inr s1)
          else Inr s1)"

text \<open>\<open>case 0x1b\<close>.\<close>

definition on_escape :: "processor \<Rightarrow> fault + processor" where
  "on_escape s = terminate_at 0 ((EraseChars (keycount s) s)\<lparr>keycount := 0\<rparr>)"

text \<open>\<open>case '\x08'\<close>.\<close>

definition on_backspace :: "processor \<Rightarrow> fault + processor" where
  "on_backspace s =
     (if keycount s \<noteq> 0 then
        (case terminate_at (keycount s - 1) (s\<lparr>keycount := keycount s - 1\<rparr>) of
           Inl e \<Rightarrow> Inl e
         | Inr s1 \<Rightarrow> Inr (EraseChars 1 s1))
      else Inr (putch 0x07 s))"

text \<open>The loop that moves every history entry one slot toward slot \<open>0\<close>.\<close>

fun shift_history :: "int list \<Rightarrow> processor \<Rightarrow> fault + processor" where
  "shift_history [] s = Inr s"
| "shift_history (i # rest) s =
     (case strcpy_history i (historyBuffer s (i + 1)) s of
        Inl e \<Rightarrow> Inl e
      | Inr s1 \<Rightarrow> shift_history rest s1)"

text \<open>
  The statement after the callback's return in \<open>case '\r'\<close>: the line is entered into the
  history unless \<open>mystrnicmp\<close> finds it equal to the entry in slot \<open>historyCount - 1\<close>.
\<close>

definition enter_history :: "processor \<Rightarrow> fault + processor" where
  "enter_history s =
     (if mystrnicmp (buffer s) (historyBuffer s (historyCount s - 1))
           (length (historyBuffer s (historyCount s - 1))) \<noteq> 0
      then
        (case (if historyCount s = historyDepth s then
                 (let s0 = s\<lparr>historyCount := historyCount s - 1\<rparr> in
                  shift_history [0 .. historyCount s0 - 1] s0)
               else Inr s) of
           Inl e \<Rightarrow> Inl e
         | Inr s1 \<Rightarrow>
             (case strcpy_history (historyCount s1) (buffer s1) s1 of
                Inl e \<Rightarrow> Inl e
              | Inr s2 \<Rightarrow>
                  Inr (s2\<lparr>whereInHistory := historyCount s2,
                          historyCount := historyCount s2 + 1\<rparr>)))
      else Inr s)"

text \<open>\<open>case '\r'\<close> and \<open>case '\n'\<close>.\<close>

definition on_enter :: "bool \<Rightarrow> processor \<Rightarrow> fault + (RUNRESULT_T \<times> processor)" where
  "on_enter got s =
     (case
        (if length (buffer s) \<noteq> 0 then
           (case CommandMatches True got s of
              Inl e \<Rightarrow> Inl e
            | Inr (foundCount, cbk, params, s1) \<Rightarrow>
                if foundCount = 1 then
                  (case cbk of
                     None \<Rightarrow> Inl NullPointer
                   | Some m \<Rightarrow>
                       (case params of
                          None \<Rightarrow> Inl NullPointer
                        | Some p \<Rightarrow>
                            (case call_callback m p s1 of
                               Inl e \<Rightarrow> Inl e
                             | Inr (val, s2) \<Rightarrow>
                                 (case enter_history s2 of
                                    Inl e \<Rightarrow> Inl e
                                  | Inr s3 \<Rightarrow> Inr (val, s3)))))
                else if foundCount > 1 then
                  Inr (runok, puts '' *** non-unique command ignored      try 'Help' ***'' s1)
                else if foundCount = 0 then
                  Inr (runok, puts '' *** huh?                            try 'Help' ***'' s1)
                else Inr (runok, s1))
         else Inr (runok, puts [] s))
      of
        Inl e \<Rightarrow> Inl e
      | Inr (val, s4) \<Rightarrow>
          (case terminate_at 0 (s4\<lparr>keycount := 0\<rparr>) of
             Inl e \<Rightarrow> Inl e
           | Inr s5 \<Rightarrow> Inr (val, s5\<lparr>showPrompt := True\<rparr>)))"

text \<open>\<open>default\<close>: any other character.\<close>

definition on_other :: "int \<Rightarrow> bool \<Rightarrow> processor \<Rightarrow> fault + processor" where
  "on_other c got s =
     (if myisprint c \<and> int (keycount s) < bufferSize s then
        (case store_char (keycount s) (char_of c) s of
           Inl e \<Rightarrow> Inl e
         | Inr s1 \<Rightarrow>
             (case CommandMatches False got (s1\<lparr>keycount := keycount s1 + 1\<rparr>) of
                Inl e \<Rightarrow> Inl e
              | Inr (foundCount, cbk, params, s2) \<Rightarrow>
                  if foundCount \<noteq> 0 then Inr (putch c s2)
                  else
                    (case terminate_at (keycount s2 - 1) (s2\<lparr>keycount := keycount s2 - 1\<rparr>) of
                       Inl e \<Rightarrow> Inl e
                     | Inr s3 \<Rightarrow> Inr (putch 0x07 s3))))
      else Inr (putch 0x07 s))"

definition ProcessStandardSequence ::
  "int \<Rightarrow> bool \<Rightarrow> processor \<Rightarrow> fault + (RUNRESULT_T \<times> processor)" where
  "ProcessStandardSequence c got s =
     (if c = 0 then Inr (runok, s)
      else if c = 0x5B then Inr (runok, s\<lparr>leadinChar := True\<rparr>)
      else if c = 0xE0 then Inr (runok, s\<lparr>leadinChar := True\<rparr>)
      else if c = 0x09 then
        (case on_tab got s of Inl e \<Rightarrow> Inl e | Inr s1 \<Rightarrow> Inr (runok, s1))
      else if c = 0x1B then
        (case on_escape s of Inl e \<Rightarrow> Inl e | Inr s1 \<Rightarrow> Inr (runok, s1))
      else if c = 0x08 then
        (case on_backspace s of Inl e \<Rightarrow> Inl e | Inr s1 \<Rightarrow> Inr (runok, s1))
      else if c = 0x0D \<or> c = 0x0A then on_enter got s
      else
        (case on_other c got s of Inl e \<Rightarrow> Inl e | Inr s1 \<Rightarrow> Inr (runok, s1)))"

subsection \<open>Run\<close>

text \<open>
  \<open>input\<close> is what the I/O port has for this call: \<open>None\<close> when \<open>cfg.kbhit()\<close> reports
  nothing, \<open>Some c\<close> when \<open>cfg.getch()\<close> returns \<open>c\<close>. Every path through Run calls
  \<open>cfg.kbhit\<close>, after \<open>cfg.putch\<close> when the prompt is due: without the functions the call
  goes through a NULL pointer. (A built-in command used as the banner calls \<open>cfg.puts\<close>
  even before that; Run ends in a fault in either case.)
\<close>

definition CommandProcessor_Run ::
  "int option \<Rightarrow> bool \<Rightarrow> processor \<Rightarrow> fault + (RUNRESULT_T \<times> processor)" where
  "CommandProcessor_Run input got s =
     (let val = runok in
      case
        (if showSignOnBanner s then
           (case SignOnBanner s of
              None \<Rightarrow> Inl NullPointer
            | Some banner \<Rightarrow>
                (case call_callback banner [] s of
                   Inl e \<Rightarrow> Inl e
                 | Inr (r, s1) \<Rightarrow> Inr (s1\<lparr>showSignOnBanner := False\<rparr>)))
         else Inr s)
      of
        Inl e \<Rightarrow> Inl e
      | Inr s1 \<Rightarrow>
          if \<not> port s1 then Inl NullPointer
          else
            (let s2 = (if showPrompt s1 \<and> echo s1
                       then (putch (ord CHR ''>'') s1)\<lparr>showPrompt := False\<rparr> else s1)
             in case input of
                  None \<Rightarrow> Inr (val, s2)
                | Some c0 \<Rightarrow>
                    (case (if leadinChar s2 then ProcessComplexSequence c0 s2 else Inr (c0, s2)) of
                       Inl e \<Rightarrow> Inl e
                     | Inr (c, s3) \<Rightarrow>
                         (case ProcessStandardSequence c got s3 of
                            Inl e \<Rightarrow> Inl e
                          | Inr (r, s4) \<Rightarrow> Inr (val, s4)))))"

text \<open>A run of calls, one per input byte, for as long as no fault occurs.\<close>

fun feed :: "int list \<Rightarrow> processor \<Rightarrow> fault + processor" where
  "feed [] s = Inr s"
| "feed (c # cs) s =
     (case CommandProcessor_Run (Some c) True s of
        Inl e \<Rightarrow> Inl e
      | Inr (r, s1) \<Rightarrow> feed cs s1)"

subsection \<open>Init\<close>

definition HelpMenu :: CMD_T where
  "HelpMenu = \<lparr>command = ''Help'',
     helptext = ''Help or '?' shows this help, 'Help ?' shows more details.'',
     callback = builtin_Help, visibility = visible\<rparr>"

definition QuestionMenu :: CMD_T where
  "QuestionMenu = \<lparr>command = ''?'', helptext = ''Shows this help, '? ?' shows more details.'',
     callback = builtin_Help, visibility = invisible\<rparr>"

definition HistoryMenu :: CMD_T where
  "HistoryMenu = \<lparr>command = ''History'', helptext = ''Show command history'',
     callback = builtin_History, visibility = visible\<rparr>"

definition EchoMenu :: CMD_T where
  "EchoMenu = \<lparr>command = ''Echo'', helptext = ''Echo [1|on|0|off] turns echo on or off.'',
     callback = builtin_Echo, visibility = visible\<rparr>"

definition ExitMenu :: CMD_T where
  "ExitMenu = \<lparr>command = ''Exit'', helptext = ''Exits the program'',
     callback = builtin_Exit, visibility = visible\<rparr>"

text \<open>
  The static variables as the C initialisers leave them; both buffer pointers and the four
  function pointers are unset.
\<close>

definition at_start :: processor where
  "at_start = \<lparr>head = [], buffer = [], historyBuffer = (\<lambda>i. []), historyCount = 0,
     historyDepth = 0, longestCommand = 0, SignOnBanner = None, showSignOnBanner = False,
     caseinsensitive = False, echo = False, bufferSize = 0, port = False, keycount = 0,
     leadinChar = False,
     whereInHistory = 0, showPrompt = True, trace = []\<rparr>"

text \<open>
  The outcomes of the \<open>malloc\<close> calls of one \<open>Init\<close>, in the order of the calls; calls beyond
  the list get storage. \<open>Init\<close> ignores what \<open>Add\<close> returns.
\<close>

definition add_next :: "CMD_T \<Rightarrow> bool list \<times> processor \<Rightarrow> bool list \<times> processor" where
  "add_next menu ms =
     (case ms of (mem, s) \<Rightarrow>
        (tl mem, snd (CommandProcessor_Add menu (case mem of [] \<Rightarrow> True | g # _ \<Rightarrow> g) s)))"

text \<open>
  \<open>fresh_line\<close> and \<open>fresh_history\<close> are the bytes the two new allocations happen to hold:
  \<open>Init\<close> writes to neither. \<open>io\<close> says whether the four function pointers passed to
  \<open>Init\<close> are functions (rather than NULL).
\<close>

definition CommandProcessor_Init ::
  "CMD_T option \<Rightarrow> CONFIG_T \<Rightarrow> int \<Rightarrow> int \<Rightarrow> bool \<Rightarrow> bool list \<Rightarrow> string \<Rightarrow> (int \<Rightarrow> string) \<Rightarrow>
   processor \<Rightarrow> INITRESULT_T \<times> processor" where
  "CommandProcessor_Init banner config maxCmdLen0 numInHistory io mem fresh_line fresh_history s =
     (case (case banner of
              None \<Rightarrow> (mem, s)
            | Some b \<Rightarrow>
                (case add_next b (mem, s) of
                   (mem', s') \<Rightarrow> (mem', s'\<lparr>SignOnBanner := Some b, showSignOnBanner := True\<rparr>)))
      of (mem1, s1) \<Rightarrow>
        (let maxCmdLen = (if maxCmdLen0 < 6 then 6 else maxCmdLen0);
             got_buffer = (case mem1 of [] \<Rightarrow> True | g # _ \<Rightarrow> g);
             got_history = (case tl mem1 of [] \<Rightarrow> True | g # _ \<Rightarrow> g);
             s2 = s1\<lparr>buffer := fresh_line, historyDepth := numInHistory,
                      historyBuffer := fresh_history, bufferSize := maxCmdLen\<rparr>
         in if got_buffer \<and> got_history then
              (case (if config AND CFG_ENABLE_SYSTEM \<noteq> 0
                     then add_next EchoMenu (add_next HistoryMenu (add_next HelpMenu
                            (add_next QuestionMenu (tl (tl mem1), s2))))
                     else (tl (tl mem1), s2))
               of ms3 \<Rightarrow>
                 (case (if config AND CFG_ENABLE_TERMINATE \<noteq> 0 then add_next ExitMenu ms3
                        else ms3)
                  of (mem4, s4) \<Rightarrow>
                    (initok, s4\<lparr>caseinsensitive := (config AND CFG_CASE_INSENSITIVE \<noteq> 0),
                                 echo := (config AND CFG_ECHO_ON \<noteq> 0), port := io\<rparr>)))
            else (initfailed, s2)))"

subsection \<open>Commands for the examples\<close>

text \<open>A host command that does nothing and lets the processor continue.\<close>

definition plain :: "string \<Rightarrow> CMD_T" where
  "plain name =
     \<lparr>command = name, helptext = [], callback = host (\<lambda>p. runok), visibility = visible\<rparr>"

text \<open>
  A processor as \<open>Init\<close> leaves it when it is called without a banner, with no option set
  and with the four I/O functions, the new allocations are zero-filled and so are the bytes
  in front of them, and the registry holds the given links: \<open>len\<close> is the buffer size and
  \<open>depth\<close> the history depth. The tracked longest-name length, which only the output of
  Help uses, is left at zero.
\<close>

definition console :: "CMD_T list \<Rightarrow> int \<Rightarrow> int \<Rightarrow> processor" where
  "console links len depth =
     at_start\<lparr>head := links, bufferSize := len, historyDepth := depth, port := True\<rparr>"

section \<open>Vocabulary of the properties\<close>

text \<open>
  The properties below are stated with a few notions that are not functions of the C file.
  \<^item> A C string holds no NUL.
  \<^item> The typed name of a line is its text before the first space; its argument is the text
    after that space (empty when there is none).
  \<^item> A typed name agrees with a command name when the two are equal over the length of the
    typed name, letter case ignored when the processor is case-insensitive.
  \<^item> A line matches the registry when it is empty or its typed name agrees with the name
    of some registered command.
  \<^item> The stored entries of the history are the slots \<open>0 .. historyCount - 1\<close>, oldest first.
\<close>

definition cstring :: "string \<Rightarrow> bool" where
  "cstring str = (NUL \<notin> set str)"

definition typed_name :: "string \<Rightarrow> string" where
  "typed_name buf = takeWhile (\<lambda>c. c \<noteq> CHR '' '') buf"

definition argument_of :: "string \<Rightarrow> string" where
  "argument_of buf = tl (dropWhile (\<lambda>c. c \<noteq> CHR '' '') buf)"

definition agrees :: "bool \<Rightarrow> string \<Rightarrow> string \<Rightarrow> bool" where
  "agrees ci typed name =
     (if ci then map mytolower typed = map mytolower (take (length typed) name)
      else typed = take (length typed) name)"

definition line_matches :: "processor \<Rightarrow> string \<Rightarrow> bool" where
  "line_matches s buf =
     (buf = [] \<or> list_ex (\<lambda>link. agrees (caseinsensitive s) (typed_name buf) (command link)) (head s))"

definition stored :: "processor \<Rightarrow> string list" where
  "stored s = map (historyBuffer s) [0 .. historyCount s - 1]"

text \<open>
  The state the editor keeps between two calls of Run: \<open>keycount\<close> is the length of the
  line, the line and every stored history entry are C strings that match the registry, the
  navigation index lies between \<open>0\<close> and \<open>historyCount\<close>, and the command names are
  C strings.
\<close>

definition editor_inv :: "processor \<Rightarrow> bool" where
  "editor_inv s =
     (keycount s = length (buffer s) \<and> cstring (buffer s) \<and> line_matches s (buffer s)
      \<and> 0 \<le> whereInHistory s \<and> whereInHistory s \<le> historyCount s
      \<and> list_all (\<lambda>entry. cstring entry \<and> line_matches s entry) (stored s)
      \<and> list_all (\<lambda>link. cstring (command link)) (head s))"

section \<open>Evaluation rules\<close>

lemmas char_eval = ord_def NUL_def deref_def mytolower_def

lemmas cmp_eval = mystrnicmp_def mystrnicmp_loop.simps strncmp.simps Let_def char_eval

section \<open>The registry\<close>

text \<open>
  Claim C3: after any sequence of successful Add calls the registry is in case-insensitive
  alphabetical order by name. The code does not keep that order. Starting from the empty
  registry, Add of \<open>A\<close> followed by Add of \<open>B\<close> leaves the sequence \<open>B, A\<close>: the search
  loop steps over \<open>A\<close> once, which leaves \<open>prev\<close> equal to \<open>head\<close>, and the branch for
  \<open>prev == head\<close> puts the new link in front of the list. The comparison the loop itself
  uses ranks \<open>A\<close> below \<open>B\<close>.
\<close>

theorem Add_second_goes_first:
  "CommandProcessor_Add (plain ''B'') True
       (snd (CommandProcessor_Add (plain ''A'') True at_start))
     = (addok, at_start\<lparr>head := [plain ''B'', plain ''A''], longestCommand := 1\<rparr>)
   \<and> mystrnicmp (command (plain ''A'')) (command (plain ''B'')) (length (command (plain ''B''))) = -1"
  by (simp add: CommandProcessor_Add_def at_start_def plain_def cmp_eval)

section \<open>Properties of the helper functions\<close>

lemma ord_inj: "(ord a = ord b) = (a = b)"
  by (simp add: ord_def)

lemma ord_bounds: "0 \<le> ord a" "ord a < 256"
proof -
  have "(of_char a :: int) mod 256 = of_char a" by (rule of_char_mod_256)
  then have "ord a = ord a mod 256" by (simp add: ord_def)
  then show "ord a < 256" "0 \<le> ord a"
    by (metis pos_mod_bound zero_less_numeral, metis pos_mod_sign zero_less_numeral)
qed

lemma ord_NUL: "ord NUL = 0"
  by (simp add: ord_def NUL_def)

lemma ord_mytolower:
  "ord (mytolower a) = (if 65 \<le> ord a \<and> ord a \<le> 90 then ord a + 32 else ord a)"
proof (cases "65 \<le> ord a \<and> ord a \<le> 90")
  case True
  then have "ord (mytolower a) = (ord a + 32) mod 256"
    by (simp add: mytolower_def ord_def)
  with True show ?thesis by simp
next
  case False
  then show ?thesis by (auto simp add: mytolower_def ord_def)
qed

lemma mytolower_NUL: "(mytolower a = NUL) = (a = NUL)"
proof -
  have "(ord (mytolower a) = 0) = (ord a = 0)"
    by (simp add: ord_mytolower)
  then show ?thesis by (metis ord_inj ord_NUL)
qed

lemma mytolower_eq_ord: "(ord (mytolower a) - ord (mytolower b) = 0) = (mytolower a = mytolower b)"
  using ord_inj [of "mytolower a" "mytolower b"] by auto

lemma loop_zero_iff:
  "l \<noteq> [] \<Longrightarrow> NUL \<notin> set l \<Longrightarrow> 0 < n \<Longrightarrow>
   (mystrnicmp_loop l r n = 0) =
     (map mytolower (take (min n (length l)) l) = map mytolower (take (min n (length l)) r))"
proof (induction l arbitrary: r n)
  case Nil
  then show ?case by simp
next
  case (Cons c l')
  from Cons.prems have c: "c \<noteq> NUL" and l': "NUL \<notin> set l'" by auto
  obtain k where n: "n = Suc k" using Cons.prems(3) by (cases n) auto
  show ?case
  proof (cases r)
    case Nil
    have "mytolower c \<noteq> NUL" using c by (simp add: mytolower_NUL)
    then have "ord (mytolower c) - ord (mytolower NUL) \<noteq> 0"
      using mytolower_eq_ord [of c NUL] mytolower_NUL [of NUL] by simp
    then show ?thesis using Nil n
      by (simp add: mystrnicmp_loop.simps [of "c # l'"] deref_def Let_def)
  next
    case (Cons d r')
    show ?thesis
    proof (cases "mytolower c = mytolower d")
      case False
      then have "ord (mytolower c) - ord (mytolower d) \<noteq> 0"
        using mytolower_eq_ord [of c d] by simp
      then show ?thesis using Cons n False
        by (simp add: mystrnicmp_loop.simps [of "c # l'"] deref_def Let_def)
    next
      case True
      then have z: "ord (mytolower c) - ord (mytolower d) = 0" by simp
      show ?thesis
      proof (cases "l' \<noteq> [] \<and> 0 < k")
        case False
        then have "min k (length l') = 0" by auto
        moreover have "deref l' = NUL \<or> k = 0"
          using False by (cases l') (auto simp add: deref_def)
        ultimately show ?thesis using Cons n True z
          by (auto simp add: mystrnicmp_loop.simps [of "c # l'"] deref_def Let_def)
      next
        case nonempty: True
        then have d: "deref l' \<noteq> NUL" using l' by (cases l') (auto simp add: deref_def)
        have "mystrnicmp_loop (c # l') r n = mystrnicmp_loop l' r' k"
          using Cons n z d nonempty
          by (simp add: mystrnicmp_loop.simps [of "c # l'"] deref_def Let_def)
        also have "(\<dots> = 0) = (map mytolower (take (min k (length l')) l')
            = map mytolower (take (min k (length l')) r'))"
          using Cons.IH [of k r'] nonempty l' by simp
        finally show ?thesis using Cons n True by simp
      qed
    qed
  qed
qed

lemma mystrnicmp_eq_0:
  assumes "l \<noteq> []" "NUL \<notin> set l"
  shows "(mystrnicmp l r n = 0) =
     (map mytolower (take (min n (length l)) l) = map mytolower (take (min n (length l)) r))"
proof (cases "n = 0")
  case True
  then show ?thesis by (simp add: mystrnicmp_def)
next
  case False
  then have "(mystrnicmp l r n = 0) = (mystrnicmp_loop l r n = 0)"
    by (auto simp add: mystrnicmp_def Let_def)
  then show ?thesis using loop_zero_iff [OF assms, of n r] False by simp
qed

lemma strncmp_eq_0:
  "n \<le> length l \<Longrightarrow> NUL \<notin> set (take n l) \<Longrightarrow> (strncmp l r n = 0) = (take n l = take n r)"
proof (induction n arbitrary: l r)
  case 0
  then show ?case by (simp add: strncmp.simps)
next
  case (Suc k)
  then obtain c l' where l: "l = c # l'" by (cases l) auto
  with Suc.prems have c: "c \<noteq> NUL" and l': "NUL \<notin> set (take k l')" "k \<le> length l'" by auto
  show ?case
  proof (cases r)
    case Nil
    then show ?thesis using l c ord_inj [of c NUL]
      by (simp add: strncmp.simps [of "c # l'"] deref_def)
  next
    case (Cons d r')
    show ?thesis
    proof (cases "c = d")
      case False
      then show ?thesis using l Cons ord_inj [of c d]
        by (simp add: strncmp.simps [of "c # l'"] deref_def)
    next
      case True
      have "strncmp (c # l') (c # r') (Suc k) = strncmp l' r' k"
        using c by (simp add: strncmp.simps [of "c # l'"] deref_def)
      then show ?thesis using l Cons True Suc.IH [OF l'(2) l'(1), of r']
        by simp
    qed
  qed
qed

lemma takeWhile_absent: "c \<notin> set buf \<Longrightarrow> takeWhile (\<lambda>x. x \<noteq> c) buf = buf"
  by (induction buf) auto

lemma dropWhile_absent: "c \<notin> set buf \<Longrightarrow> dropWhile (\<lambda>x. x \<noteq> c) buf = []"
  by (induction buf) auto

lemma compareLength_of_typed: "compareLength_of buf = length (typed_name buf)"
proof (cases "CHR '' '' \<in> set buf")
  case True
  then show ?thesis by (simp add: compareLength_of_def strchr_def typed_name_def)
next
  case False
  then show ?thesis
    by (simp add: compareLength_of_def strchr_def typed_name_def takeWhile_absent)
qed

lemma take_typed: "take (length (typed_name buf)) buf = typed_name buf"
  unfolding typed_name_def by (rule takeWhile_eq_take [symmetric])

lemma space_of_argument: "space_of buf = argument_of buf"
proof (cases "CHR '' '' \<in> set buf")
  case True
  have "drop (length (takeWhile (\<lambda>c. c \<noteq> CHR '' '') buf)) buf = dropWhile (\<lambda>c. c \<noteq> CHR '' '') buf"
    by (rule dropWhile_eq_drop [symmetric])
  then show ?thesis using True
    by (simp add: space_of_def strchr_def argument_of_def drop_Suc drop_tl)
next
  case False
  then show ?thesis
    by (simp add: space_of_def strchr_def argument_of_def dropWhile_absent)
qed

lemma typed_length_le: "length (typed_name buf) \<le> length buf"
  unfolding typed_name_def by (rule length_takeWhile_le)

lemma cstring_typed: "cstring buf \<Longrightarrow> cstring (typed_name buf)"
  unfolding cstring_def typed_name_def by (auto dest: set_takeWhileD)

lemma cstring_argument: "cstring buf \<Longrightarrow> cstring (argument_of buf)"
proof -
  assume "cstring buf"
  moreover have "set (tl (dropWhile (\<lambda>c. c \<noteq> CHR '' '') buf)) \<subseteq> set buf"
  proof
    fix x assume "x \<in> set (tl (dropWhile (\<lambda>c. c \<noteq> CHR '' '') buf))"
    then have "x \<in> set (dropWhile (\<lambda>c. c \<noteq> CHR '' '') buf)"
      by (cases "dropWhile (\<lambda>c. c \<noteq> CHR '' '') buf") auto
    then show "x \<in> set buf" by (rule set_dropWhileD)
  qed
  ultimately show ?thesis unfolding cstring_def argument_of_def by auto
qed

text \<open>The test of the scan, for one link.\<close>

lemma cmp_zero_agrees:
  assumes "buf \<noteq> []" "cstring buf"
  shows "(0 = (if ci then mystrnicmp buf name (compareLength_of buf)
                else strncmp buf name (compareLength_of buf)))
         = agrees ci (typed_name buf) name"
proof -
  let ?n = "length (typed_name buf)"
  have n: "?n \<le> length buf" by (rule typed_length_le)
  have nul: "NUL \<notin> set buf" using assms(2) by (simp add: cstring_def)
  have nul': "NUL \<notin> set (take ?n buf)" using nul by (auto dest: in_set_takeD)
  show ?thesis
  proof (cases ci)
    case True
    have "(mystrnicmp buf name ?n = 0)
        = (map mytolower (take ?n buf) = map mytolower (take ?n name))"
      using mystrnicmp_eq_0 [OF assms(1) nul, of name ?n] n by (simp add: min_absorb1)
    then show ?thesis using True
      by (auto simp add: compareLength_of_typed agrees_def take_typed)
  next
    case False
    have "(strncmp buf name ?n = 0) = (take ?n buf = take ?n name)"
      by (rule strncmp_eq_0 [OF n nul'])
    then show ?thesis using False
      by (auto simp add: compareLength_of_typed agrees_def take_typed)
  qed
qed

lemma match_links_result:
  "match_links ci buf n sp links (cnt, m, p) =
     (let hits = filter (\<lambda>link. 0 = (if ci then mystrnicmp buf (command link) n
                                       else strncmp buf (command link) n)) links
      in (cnt + int (length hits),
          (if hits = [] then m else Some (last hits)),
          (if hits = [] then p else Some sp)))"
proof (induction links arbitrary: cnt m p)
  case Nil
  then show ?case by simp
next
  case (Cons link rest)
  show ?case
    by (simp add: Cons.IH Let_def)
qed

lemma match_links_agrees:
  assumes "buf \<noteq> []" "cstring buf"
  shows "match_links ci buf (compareLength_of buf) (space_of buf) links (0, None, None) =
     (let hits = filter (\<lambda>link. agrees ci (typed_name buf) (command link)) links
      in (int (length hits),
          (if hits = [] then None else Some (last hits)),
          (if hits = [] then None else Some (argument_of buf))))"
  by (simp add: match_links_result cmp_zero_agrees [OF assms] space_of_argument Let_def)

lemma EchoString_trace: "EchoString p s = s\<lparr>trace := trace s @ map (\<lambda>c. Putch (ord c)) p\<rparr>"
  by (induction p arbitrary: s) (simp_all add: putch_def)

lemma EraseChars_trace:
  "EraseChars k s = s\<lparr>trace := trace s @ concat (replicate k [Putch 0x08, Putch 0x20, Putch 0x08])\<rparr>"
proof (induction k arbitrary: s)
  case 0
  then show ?case by simp
next
  case (Suc k)
  have "replicate k [Putch 0x08, Putch 0x20, Putch 0x08] @ [[Putch 0x08, Putch 0x20, Putch 0x08]]
      = [Putch 0x08, Putch 0x20, Putch 0x08] # replicate k [Putch 0x08, Putch 0x20, Putch 0x08]"
    by (simp add: replicate_append_same)
  then have "concat (replicate k [Putch 0x08, Putch 0x20, Putch 0x08]) @ [Putch 0x08, Putch 0x20, Putch 0x08]
      = [Putch 0x08, Putch 0x20, Putch 0x08] @ concat (replicate k [Putch 0x08, Putch 0x20, Putch 0x08])"
    by (metis concat.simps(2) concat_append concat.simps(1) append_Nil2)
  then show ?case
    by (simp add: Suc.IH putch_def ord_def)
qed

lemma agrees_length: "agrees ci typed name \<Longrightarrow> length typed \<le> length name"
proof -
  assume a: "agrees ci typed name"
  have "length typed = length (take (length typed) name)"
  proof (cases ci)
    case True
    with a have "map mytolower typed = map mytolower (take (length typed) name)"
      by (simp add: agrees_def)
    then show ?thesis by (rule map_eq_imp_length_eq)
  next
    case False
    with a have "typed = take (length typed) name" by (simp add: agrees_def)
    then show ?thesis by (metis)
  qed
  then show ?thesis by simp
qed

text \<open>The condition under which the line is rewritten.\<close>

lemma rewrite_condition:
  assumes "buf \<noteq> []" "cstring buf" "agrees ci (typed_name buf) name"
  shows "(int (length name) - int (compareLength_of buf) > 0
           \<or> 0 \<noteq> strncmp buf name (compareLength_of buf))
         = (typed_name buf \<noteq> name)"
proof -
  define n where "n = length (typed_name buf)"
  have cl: "compareLength_of buf = n" by (simp add: compareLength_of_typed n_def)
  have n: "n \<le> length buf" unfolding n_def by (rule typed_length_le)
  have nul': "NUL \<notin> set (take n buf)"
    using assms(2) by (auto simp add: cstring_def dest: in_set_takeD)
  have le: "n \<le> length name" unfolding n_def using assms(3) by (rule agrees_length)
  have tt: "take n buf = typed_name buf" unfolding n_def by (rule take_typed)
  have s: "(strncmp buf name n = 0) = (typed_name buf = take n name)"
    using strncmp_eq_0 [OF n nul', of name] tt by simp
  have d: "(int (length name) - int n > 0) = (n < length name)" by linarith
  show ?thesis
  proof (cases "n < length name")
    case True
    then have "typed_name buf \<noteq> name" using n_def by auto
    then show ?thesis using True d cl by simp
  next
    case False
    then have "n = length name" using le by simp
    then have "take n name = name" by simp
    then show ?thesis using False d cl s by auto
  qed
qed

lemma CommandMatches_validate:
  assumes "cstring (buffer s)"
    and "hits = filter (\<lambda>link. agrees (caseinsensitive s) (typed_name (buffer s)) (command link)) (head s)"
  shows "CommandMatches False got s =
     (if buffer s = [] then Inr (0, None, None, s)
      else Inr (int (length hits),
                (if hits = [] then None else Some (last hits)),
                (if hits = [] then None else Some (argument_of (buffer s))), s))"
proof (cases "buffer s = []")
  case True
  then show ?thesis by (simp add: CommandMatches_def)
next
  case False
  have ml: "match_links (caseinsensitive s) (buffer s) (compareLength_of (buffer s))
      (space_of (buffer s)) (head s) (0, None, None)
    = (int (length hits), (if hits = [] then None else Some (last hits)),
       (if hits = [] then None else Some (argument_of (buffer s))))"
    using match_links_agrees [OF False assms(1)] assms(2) by (simp add: Let_def)
  show ?thesis using False
    by (simp add: CommandMatches_def ml)
qed

lemma CommandMatches_not_one:
  assumes "cstring (buffer s)"
    and "hits = filter (\<lambda>link. agrees (caseinsensitive s) (typed_name (buffer s)) (command link)) (head s)"
    and "length hits \<noteq> 1"
  shows "CommandMatches True got s = CommandMatches False got s"
proof (cases "buffer s = []")
  case True
  then show ?thesis by (simp add: CommandMatches_def)
next
  case False
  have ml: "match_links (caseinsensitive s) (buffer s) (compareLength_of (buffer s))
      (space_of (buffer s)) (head s) (0, None, None)
    = (int (length hits), (if hits = [] then None else Some (last hits)),
       (if hits = [] then None else Some (argument_of (buffer s))))"
    using match_links_agrees [OF False assms(1)] assms(2) by (simp add: Let_def)
  show ?thesis using False assms(3)
    by (simp add: CommandMatches_def ml)
qed

lemma CommandMatches_one:
  assumes "cstring (buffer s)" "buffer s \<noteq> []"
    and "filter (\<lambda>link. agrees (caseinsensitive s) (typed_name (buffer s)) (command link)) (head s) = [m]"
  shows "CommandMatches True got s =
     (if typed_name (buffer s) = command m
      then Inr (1, Some m, Some (argument_of (buffer s)), s)
      else if \<not> got then Inl NullPointer
      else if int (length (command m @ '' '' @ argument_of (buffer s))) + 1 > bufferSize s
      then Inl Overrun
      else Inr (1, Some m, Some (argument_of (command m @ '' '' @ argument_of (buffer s))),
             s\<lparr>buffer := command m @ '' '' @ argument_of (buffer s),
               trace := trace s
                 @ concat (replicate (length (buffer s)) [Putch 0x08, Putch 0x20, Putch 0x08])
                 @ map (\<lambda>c. Putch (ord c)) (command m @ '' '' @ argument_of (buffer s))\<rparr>))"
proof -
  have ml: "match_links (caseinsensitive s) (buffer s) (compareLength_of (buffer s))
      (space_of (buffer s)) (head s) (0, None, None)
    = (1, Some m, Some (argument_of (buffer s)))"
    using match_links_agrees [OF assms(2) assms(1)] assms(3) by (simp add: Let_def)
  have "m \<in> set (filter (\<lambda>link. agrees (caseinsensitive s) (typed_name (buffer s)) (command link)) (head s))"
    using assms(3) by simp
  then have ag: "agrees (caseinsensitive s) (typed_name (buffer s)) (command m)" by simp
  note rc = rewrite_condition [OF assms(2) assms(1) ag]
  show ?thesis
  proof (cases "typed_name (buffer s) = command m")
    case True
    then show ?thesis using rc assms(2)
      by (simp add: CommandMatches_def ml)
  next
    case False
    then have c: "int (length (command m)) - int (compareLength_of (buffer s)) > 0
           \<or> 0 \<noteq> strncmp (buffer s) (command m) (compareLength_of (buffer s))"
      using rc by simp
    show ?thesis
    proof (cases "got \<and> \<not> int (length (command m @ '' '' @ argument_of (buffer s))) + 1 > bufferSize s")
      case fits: True
      have cp: "strcpy_buffer (command m @ '' '' @ argument_of (buffer s))
            (EraseChars (length (buffer s)) s)
          = Inr ((EraseChars (length (buffer s)) s)\<lparr>buffer := command m @ '' '' @ argument_of (buffer s)\<rparr>)"
        using fits by (simp add: strcpy_buffer_def EraseChars_trace)
      show ?thesis using False fits assms(2)
        apply (simp only: CommandMatches_def ml Let_def)
        apply (simp only: space_of_argument c cp if_True if_False split sum.case option.case
            list.size simp_thms)
        apply (simp add: EchoString_trace EraseChars_trace)
        done
    next
      case nofit: False
      show ?thesis using False nofit assms(2)
        apply (simp only: CommandMatches_def ml Let_def)
        apply (simp only: space_of_argument c if_True if_False split sum.case option.case
            list.size simp_thms)
        apply auto
        done
    qed
  qed
qed

section \<open>Matching\<close>

lemma ProcessStandardSequence_enter:
  "ProcessStandardSequence 0x0D got s = on_enter got s"
  "ProcessStandardSequence 0x0A got s = on_enter got s"
  by (simp_all add: ProcessStandardSequence_def)

lemma on_enter_not_one:
  assumes "cstring (buffer s)" "buffer s \<noteq> []" "0 < bufferSize s"
    and "hits = filter (\<lambda>link. agrees (caseinsensitive s) (typed_name (buffer s)) (command link)) (head s)"
    and "length hits \<noteq> 1"
  shows "on_enter got s =
     Inr (runok, s\<lparr>trace := trace s @
            [Puts (if hits = [] then '' *** huh?                            try 'Help' ***''
                   else '' *** non-unique command ignored      try 'Help' ***'')],
          keycount := 0, buffer := [], showPrompt := True\<rparr>)"
proof -
  have cm: "CommandMatches True got s =
      Inr (int (length hits), (if hits = [] then None else Some (last hits)),
           (if hits = [] then None else Some (argument_of (buffer s))), s)"
    using CommandMatches_not_one [OF assms(1) assms(4) assms(5)]
      CommandMatches_validate [OF assms(1) assms(4)] assms(2) by simp
  show ?thesis
  proof (cases "hits = []")
    case True
    then show ?thesis using assms(2,3)
      by (simp add: on_enter_def cm puts_def terminate_at_def)
  next
    case False
    then have "int (length hits) > 1" using assms(5) by (cases hits) auto
    then show ?thesis using assms(2,3) False
      by (simp add: on_enter_def cm puts_def terminate_at_def)
  qed
qed

lemma Go_Gop_hits:
  assumes "command go = ''Go''" "command gop = ''Gop''"
  shows "agrees ci ''Go'' (command go)" "agrees ci ''Go'' (command gop)"
  using assms by (simp_all add: agrees_def)

text \<open>
  Claim C2: Match compares every candidate only up to the length of the typed text before
  its first space; in particular, with exactly the names \<open>Go\<close> and \<open>Gop\<close> registered, submitting
  the line \<open>Go\<close> counts two matches, writes the ambiguous-command message, runs no callback
  and clears the buffer.

  First conjunct: for a non-empty line, \<open>CommandMatches\<close> counts the links whose name agrees
  with the typed name over the typed name's length, under the configured case rule, and
  leaves the state alone when it only validates. Second conjunct: the scenario, for either
  order of the two links, either case rule and any other state; the only call appended to
  the trace is the message, so no callback ran.
\<close>

theorem Match_compares_over_typed_length:
  assumes "buffer s \<noteq> []" "cstring (buffer s)"
  shows "CommandMatches False got s =
      Inr (int (length (filter (\<lambda>link. agrees (caseinsensitive s) (typed_name (buffer s)) (command link)) (head s))),
           (if filter (\<lambda>link. agrees (caseinsensitive s) (typed_name (buffer s)) (command link)) (head s) = []
            then None
            else Some (last (filter (\<lambda>link. agrees (caseinsensitive s) (typed_name (buffer s)) (command link)) (head s)))),
           (if filter (\<lambda>link. agrees (caseinsensitive s) (typed_name (buffer s)) (command link)) (head s) = []
            then None else Some (argument_of (buffer s))),
           s)
    \<and> (command go = ''Go'' \<and> command gop = ''Gop'' \<and> (head s = [go, gop] \<or> head s = [gop, go])
         \<and> buffer s = ''Go'' \<and> 0 < bufferSize s
       \<longrightarrow> (\<exists>m. CommandMatches True got s = Inr (2, Some m, Some [], s))
         \<and> ProcessStandardSequence 0x0D got s =
             Inr (runok, s\<lparr>trace := trace s @ [Puts '' *** non-unique command ignored      try 'Help' ***''],
                            keycount := 0, buffer := [], showPrompt := True\<rparr>))"
proof (intro conjI impI)
  show "CommandMatches False got s =
      Inr (int (length (filter (\<lambda>link. agrees (caseinsensitive s) (typed_name (buffer s)) (command link)) (head s))),
           (if filter (\<lambda>link. agrees (caseinsensitive s) (typed_name (buffer s)) (command link)) (head s) = []
            then None
            else Some (last (filter (\<lambda>link. agrees (caseinsensitive s) (typed_name (buffer s)) (command link)) (head s)))),
           (if filter (\<lambda>link. agrees (caseinsensitive s) (typed_name (buffer s)) (command link)) (head s) = []
            then None else Some (argument_of (buffer s))),
           s)"
    using CommandMatches_validate [OF assms(2) refl, of got] assms(1) by simp
next
  assume sc: "command go = ''Go'' \<and> command gop = ''Gop'' \<and> (head s = [go, gop] \<or> head s = [gop, go])
         \<and> buffer s = ''Go'' \<and> 0 < bufferSize s"
  define hits where "hits = filter (\<lambda>link. agrees (caseinsensitive s) (typed_name (buffer s)) (command link)) (head s)"
  have tn: "typed_name (buffer s) = ''Go''" using sc by (simp add: typed_name_def)
  have hits: "hits = head s"
    using sc tn Go_Gop_hits [of go gop "caseinsensitive s"] unfolding hits_def by auto
  then have len: "length hits = 2" using sc by auto
  then have ne: "length hits \<noteq> 1" "hits \<noteq> []" by auto
  have arg: "argument_of (buffer s) = []" using sc by (simp add: argument_of_def)
  have "CommandMatches True got s = Inr (2, Some (last hits), Some [], s)"
    using CommandMatches_not_one [OF assms(2) hits_def ne(1), of got]
      CommandMatches_validate [OF assms(2) hits_def, of got] assms(1) ne len arg by simp
  then show "\<exists>m. CommandMatches True got s = Inr (2, Some m, Some [], s)" by blast
  show "ProcessStandardSequence 0x0D got s =
             Inr (runok, s\<lparr>trace := trace s @ [Puts '' *** non-unique command ignored      try 'Help' ***''],
                            keycount := 0, buffer := [], showPrompt := True\<rparr>)"
    using on_enter_not_one [OF assms(2) assms(1) _ hits_def ne(1), of got] sc ne
    by (simp add: ProcessStandardSequence_enter)
qed

theorem Match_compares_over_typed_length_witness:
  "buffer ((console [plain ''Gop'', plain ''Go''] 80 5)\<lparr>buffer := ''Go'', keycount := 2\<rparr>) \<noteq> []
   \<and> cstring (buffer ((console [plain ''Gop'', plain ''Go''] 80 5)\<lparr>buffer := ''Go'', keycount := 2\<rparr>))
   \<and> CommandMatches False True
         ((console [plain ''Gop'', plain ''Go''] 80 5)\<lparr>buffer := ''Go'', keycount := 2\<rparr>)
       = Inr (2, Some (plain ''Go''), Some [],
              (console [plain ''Gop'', plain ''Go''] 80 5)\<lparr>buffer := ''Go'', keycount := 2\<rparr>)
   \<and> ProcessStandardSequence 0x0D True
         ((console [plain ''Gop'', plain ''Go''] 80 5)\<lparr>buffer := ''Go'', keycount := 2\<rparr>)
       = Inr (runok, (console [plain ''Gop'', plain ''Go''] 80 5)
               \<lparr>buffer := [], keycount := 0, showPrompt := True,
                 trace := [Puts '' *** non-unique command ignored      try 'Help' ***'']\<rparr>)"
  using Match_compares_over_typed_length
    [of "(console [plain ''Gop'', plain ''Go''] 80 5)\<lparr>buffer := ''Go'', keycount := 2\<rparr>"
        True "plain ''Go''" "plain ''Gop''"]
  by (simp add: console_def at_start_def plain_def cstring_def NUL_def typed_name_def
      argument_of_def agrees_def)

section \<open>Callbacks and the history\<close>

subsection \<open>What a callback changes\<close>

lemma History_lines_frame:
  "History_lines is s = Inr s' \<Longrightarrow> \<exists>t. s' = s\<lparr>trace := t\<rparr>"
proof (induction "is" arbitrary: s)
  case Nil
  then have "s' = s\<lparr>trace := trace s\<rparr>" by simp
  then show ?case ..
next
  case (Cons i rest)
  from Cons.prems obtain buf where
    r: "History_lines rest (puts buf s) = Inr s'"
    by (auto split: sum.splits)
  from Cons.IH [OF r] obtain t where "s' = (puts buf s)\<lparr>trace := t\<rparr>" ..
  then have "s' = s\<lparr>trace := t\<rparr>" by (simp add: puts_def)
  then show ?case ..
qed

lemma Help_links_frame:
  "Help_links links s = Inr s' \<Longrightarrow> \<exists>t. s' = s\<lparr>trace := t\<rparr>"
proof (induction links arbitrary: s)
  case Nil
  then have "s' = s\<lparr>trace := trace s\<rparr>" by simp
  then show ?case ..
next
  case (Cons link rest)
  from Cons.prems have "(\<exists>buf. Help_links rest (puts buf s) = Inr s') \<or> Help_links rest s = Inr s'"
    by (auto split: sum.splits if_splits)
  then show ?case
  proof
    assume "\<exists>buf. Help_links rest (puts buf s) = Inr s'"
    then obtain buf where "Help_links rest (puts buf s) = Inr s'" ..
    from Cons.IH [OF this] obtain t where "s' = (puts buf s)\<lparr>trace := t\<rparr>" ..
    then have "s' = s\<lparr>trace := t\<rparr>" by (simp add: puts_def)
    then show ?thesis ..
  next
    assume "Help_links rest s = Inr s'"
    then show ?thesis by (rule Cons.IH)
  qed
qed

lemma Help_frame: "Help p s = Inr (r, s') \<Longrightarrow> \<exists>t. s' = s\<lparr>trace := t\<rparr>"
proof -
  assume "Help p s = Inr (r, s')"
  then obtain s1 where a: "Help_links (head s) (puts [CHR 0x0D, CHR 0x0A] s) = Inr s1"
    and b: "s' = puts [] s1"
    by (auto simp add: Help_def split: sum.splits)
  from Help_links_frame [OF a] obtain t where "s1 = (puts [CHR 0x0D, CHR 0x0A] s)\<lparr>trace := t\<rparr>" ..
  with b have "s' = s\<lparr>trace := t @ [Puts []]\<rparr>" by (simp add: puts_def)
  then show ?thesis ..
qed

lemma History_frame: "History p s = Inr (r, s') \<Longrightarrow> \<exists>t. s' = s\<lparr>trace := t\<rparr>"
proof -
  assume "History p s = Inr (r, s')"
  then obtain s1 buf where a: "History_lines [0 .. historyCount s - 1] (puts [] s) = Inr s1"
    and b: "s' = puts buf s1"
    by (auto simp add: History_def puts_def split: sum.splits)
  from History_lines_frame [OF a] obtain t where "s1 = (puts [] s)\<lparr>trace := t\<rparr>" ..
  with b have "s' = s\<lparr>trace := t @ [Puts buf]\<rparr>" by (simp add: puts_def)
  then show ?thesis ..
qed

lemma Echo_frame: "Echo p s = Inr (r, s') \<Longrightarrow> \<exists>t e. s' = s\<lparr>trace := t, echo := e\<rparr>"
proof -
  assume a: "Echo p s = Inr (r, s')"
  define s1 where "s1 = (if deref p \<noteq> NUL then
                  (let s' = (if deref p = CHR ''1'' \<or> mystrnicmp p ''on'' 2 = 0
                             then snd (CommandProcessor_Echo True s) else s)
                   in if deref p = CHR ''0'' \<or> mystrnicmp p ''off'' 3 = 0
                      then snd (CommandProcessor_Echo False s') else s')
                else s)"
  have "s1 = s\<lparr>echo := echo s1\<rparr>"
    unfolding s1_def by (simp add: CommandProcessor_Echo_def Let_def)
  moreover have "\<exists>str. s' = puts str s1"
    using a unfolding Echo_def s1_def [symmetric] by (auto simp add: Let_def split: if_splits)
  ultimately obtain str where "s' = puts str (s\<lparr>echo := echo s1\<rparr>)" by auto
  then have "s' = s\<lparr>trace := trace s @ [Puts str], echo := echo s1\<rparr>" by (simp add: puts_def)
  then show ?thesis by blast
qed

lemma call_callback_frame:
  assumes "call_callback m p s = Inr (r, s')"
  shows "\<exists>t e. s' = s\<lparr>trace := t, echo := e\<rparr>"
proof -
  define s0 where "s0 = s\<lparr>trace := trace s @ [Invoke (command m) p]\<rparr>"
  have "\<exists>t e. s' = s0\<lparr>trace := t, echo := e\<rparr>"
  proof (cases "callback m")
    case builtin_Help
    with assms have "Help p s0 = Inr (r, s')" by (simp add: call_callback_def s0_def)
    from Help_frame [OF this] obtain t where "s' = s0\<lparr>trace := t\<rparr>" ..
    then have "s' = s0\<lparr>trace := t, echo := echo s0\<rparr>" by simp
    then show ?thesis by blast
  next
    case builtin_History
    with assms have "History p s0 = Inr (r, s')" by (simp add: call_callback_def s0_def)
    from History_frame [OF this] obtain t where "s' = s0\<lparr>trace := t\<rparr>" ..
    then have "s' = s0\<lparr>trace := t, echo := echo s0\<rparr>" by simp
    then show ?thesis by blast
  next
    case builtin_Echo
    with assms have "Echo p s0 = Inr (r, s')" by (simp add: call_callback_def s0_def)
    then show ?thesis by (rule Echo_frame)
  next
    case builtin_Exit
    with assms have "s' = s0\<lparr>trace := trace s0 @ [Puts [CHR 0x0D, CHR 0x0A, CHR ''b'', CHR ''y'', CHR ''e'', CHR ''.'']], echo := echo s0\<rparr>"
      by (auto simp add: call_callback_def s0_def Exit_def puts_def)
    then show ?thesis by blast
  next
    case (host f)
    with assms have "s' = s0\<lparr>trace := trace s0, echo := echo s0\<rparr>"
      by (auto simp add: call_callback_def s0_def)
    then show ?thesis by blast
  qed
  then obtain t e where "s' = s0\<lparr>trace := t, echo := e\<rparr>" by blast
  then have "s' = s\<lparr>trace := t, echo := e\<rparr>" by (simp add: s0_def)
  then show ?thesis by blast
qed

subsection \<open>Entering a line into the history\<close>

lemma shift_history_result:
  "shift_history [a .. b] s = Inr s' \<Longrightarrow>
   s' = s\<lparr>historyBuffer := (\<lambda>i. if a \<le> i \<and> i \<le> b then historyBuffer s (i + 1)
                                else historyBuffer s i)\<rparr>"
proof (induction a b arbitrary: s rule: upto.induct)
  case (1 a b)
  show ?case
  proof (cases "a \<le> b")
    case False
    then have "[a .. b] = []" by simp
    with "1.prems" have "s' = s" by simp
    moreover have "(\<lambda>i. if a \<le> i \<and> i \<le> b then historyBuffer s (i + 1) else historyBuffer s i)
        = historyBuffer s"
      using False by (auto simp add: fun_eq_iff)
    ultimately show ?thesis by simp
  next
    case True
    then have u: "[a .. b] = a # [a + 1 .. b]" by (rule upto_rec1)
    from "1.prems" u obtain s1 where
      c: "strcpy_history a (historyBuffer s (a + 1)) s = Inr s1"
      and r: "shift_history [a + 1 .. b] s1 = Inr s'"
      by (auto split: sum.splits)
    from c have s1: "s1 = s\<lparr>historyBuffer := (historyBuffer s)(a := historyBuffer s (a + 1))\<rparr>"
      by (auto simp add: strcpy_history_def split: if_splits)
    have "s' = s1\<lparr>historyBuffer := (\<lambda>i. if a + 1 \<le> i \<and> i \<le> b then historyBuffer s1 (i + 1)
                                else historyBuffer s1 i)\<rparr>"
      using "1.IH" [OF True r] .
    moreover have "(\<lambda>i. if a + 1 \<le> i \<and> i \<le> b then historyBuffer s1 (i + 1) else historyBuffer s1 i)
        = (\<lambda>i. if a \<le> i \<and> i \<le> b then historyBuffer s (i + 1) else historyBuffer s i)"
      using True by (auto simp add: s1 fun_eq_iff)
    ultimately show ?thesis by (simp add: s1)
  qed
qed

text \<open>
  When the product \<open>historyDepth * bufferSize\<close> is below \<open>2 ^ 32\<close> the allocation holds
  every slot.
\<close>

lemma history_slot_fits:
  assumes "0 \<le> i" "i < historyDepth s" "int n + 1 \<le> bufferSize s"
    and "historyDepth s * bufferSize s < 2 ^ 32"
  shows "i * bufferSize s + int n + 1 \<le> history_bytes s"
proof -
  have b: "0 \<le> bufferSize s" using assms(3) by linarith
  have "0 \<le> historyDepth s" using assms(1,2) by linarith
  then have "0 \<le> historyDepth s * bufferSize s" using b by simp
  then have h: "history_bytes s = historyDepth s * bufferSize s"
    using assms(4) by (simp add: history_bytes_def)
  have "i + 1 \<le> historyDepth s" using assms(2) by linarith
  then have "(i + 1) * bufferSize s \<le> historyDepth s * bufferSize s"
    using b by (rule mult_right_mono)
  then have "i * bufferSize s + bufferSize s \<le> historyDepth s * bufferSize s"
    by (simp add: algebra_simps)
  then show ?thesis using assms(3) h by linarith
qed

lemma shift_history_succeeds:
  "0 \<le> a \<Longrightarrow> b < historyDepth s \<Longrightarrow>
   (\<And>i. a \<le> i \<Longrightarrow> i \<le> b \<Longrightarrow> int (length (historyBuffer s (i + 1))) + 1 \<le> bufferSize s) \<Longrightarrow>
   historyDepth s * bufferSize s < 2 ^ 32 \<Longrightarrow>
   \<exists>s'. shift_history [a .. b] s = Inr s'"
proof (induction a b arbitrary: s rule: upto.induct)
  case (1 a b)
  show ?case
  proof (cases "a \<le> b")
    case False
    then show ?thesis by simp
  next
    case True
    then have u: "[a .. b] = a # [a + 1 .. b]" by (rule upto_rec1)
    define s1 where "s1 = s\<lparr>historyBuffer := (historyBuffer s)(a := historyBuffer s (a + 1))\<rparr>"
    have "a * bufferSize s + int (length (historyBuffer s (a + 1))) + 1 \<le> history_bytes s"
      using True "1.prems" by (intro history_slot_fits) simp_all
    then have c: "strcpy_history a (historyBuffer s (a + 1)) s = Inr s1"
      using True "1.prems" by (simp add: strcpy_history_def s1_def)
    have "\<exists>s'. shift_history [a + 1 .. b] s1 = Inr s'"
    proof (rule "1.IH" [OF True])
      show "0 \<le> a + 1" using "1.prems"(1) by simp
      show "b < historyDepth s1" using "1.prems"(2) by (simp add: s1_def)
      show "historyDepth s1 * bufferSize s1 < 2 ^ 32" using "1.prems"(4) by (simp add: s1_def)
      fix i assume "a + 1 \<le> i" "i \<le> b"
      then show "int (length (historyBuffer s1 (i + 1))) + 1 \<le> bufferSize s1"
        using "1.prems"(3) [of i] by (simp add: s1_def)
    qed
    then show ?thesis using u c by simp
  qed
qed

lemma enter_history_repeat:
  "mystrnicmp (buffer s) (historyBuffer s (historyCount s - 1))
     (length (historyBuffer s (historyCount s - 1))) = 0 \<Longrightarrow>
   enter_history s = Inr s"
  by (simp add: enter_history_def)

text \<open>What a successful \<open>enter_history\<close> can have done.\<close>

lemma enter_history_result:
  assumes "enter_history s = Inr s'"
  shows "(mystrnicmp (buffer s) (historyBuffer s (historyCount s - 1))
           (length (historyBuffer s (historyCount s - 1))) = 0 \<and> s' = s)
     \<or> (mystrnicmp (buffer s) (historyBuffer s (historyCount s - 1))
           (length (historyBuffer s (historyCount s - 1))) \<noteq> 0
        \<and> historyCount s \<noteq> historyDepth s \<and> 0 \<le> historyCount s \<and> historyCount s < historyDepth s
        \<and> int (length (buffer s)) + 1 \<le> bufferSize s
        \<and> s' = s\<lparr>historyBuffer := (historyBuffer s)(historyCount s := buffer s),
                  whereInHistory := historyCount s, historyCount := historyCount s + 1\<rparr>)
     \<or> (mystrnicmp (buffer s) (historyBuffer s (historyCount s - 1))
           (length (historyBuffer s (historyCount s - 1))) \<noteq> 0
        \<and> historyCount s = historyDepth s \<and> 0 < historyDepth s
        \<and> int (length (buffer s)) + 1 \<le> bufferSize s
        \<and> s' = s\<lparr>historyBuffer :=
                    (\<lambda>i. if 0 \<le> i \<and> i \<le> historyDepth s - 2 then historyBuffer s (i + 1)
                         else if i = historyDepth s - 1 then buffer s else historyBuffer s i),
                  whereInHistory := historyDepth s - 1, historyCount := historyDepth s\<rparr>)"
proof (cases "mystrnicmp (buffer s) (historyBuffer s (historyCount s - 1))
           (length (historyBuffer s (historyCount s - 1))) = 0")
  case True
  then show ?thesis using assms by (simp add: enter_history_def)
next
  case differs: False
  show ?thesis
  proof (cases "historyCount s = historyDepth s")
    case False
    from assms differs False obtain s2 where
      c: "strcpy_history (historyCount s) (buffer s) s = Inr s2"
      and e: "s' = s2\<lparr>whereInHistory := historyCount s2, historyCount := historyCount s2 + 1\<rparr>"
      by (auto simp add: enter_history_def split: sum.splits)
    from c have "0 \<le> historyCount s \<and> historyCount s < historyDepth s
        \<and> int (length (buffer s)) + 1 \<le> bufferSize s
        \<and> s2 = s\<lparr>historyBuffer := (historyBuffer s)(historyCount s := buffer s)\<rparr>"
      by (auto simp add: strcpy_history_def split: if_splits)
    then show ?thesis using differs False e by simp
  next
    case True
    define s0 where "s0 = s\<lparr>historyCount := historyCount s - 1\<rparr>"
    from assms differs True obtain s1 s2 where
      sh: "shift_history [0 .. historyDepth s - 2] s0 = Inr s1"
      and c: "strcpy_history (historyCount s1) (buffer s1) s1 = Inr s2"
      and e: "s' = s2\<lparr>whereInHistory := historyCount s2, historyCount := historyCount s2 + 1\<rparr>"
      by (auto simp add: enter_history_def s0_def Let_def split: sum.splits)
    have s1: "s1 = s0\<lparr>historyBuffer := (\<lambda>i. if 0 \<le> i \<and> i \<le> historyDepth s - 2
                         then historyBuffer s0 (i + 1) else historyBuffer s0 i)\<rparr>"
      using shift_history_result [OF sh] .
    have hc: "historyCount s1 = historyDepth s - 1" "buffer s1 = buffer s"
      "historyDepth s1 = historyDepth s" "bufferSize s1 = bufferSize s"
      using True by (simp_all add: s1 s0_def)
    from c hc have "0 < historyDepth s \<and> int (length (buffer s)) + 1 \<le> bufferSize s
        \<and> s2 = s1\<lparr>historyBuffer := (historyBuffer s1)(historyDepth s - 1 := buffer s)\<rparr>"
      by (auto simp add: strcpy_history_def split: if_splits)
    moreover have "(historyBuffer s1)(historyDepth s - 1 := buffer s)
        = (\<lambda>i. if 0 \<le> i \<and> i \<le> historyDepth s - 2 then historyBuffer s (i + 1)
               else if i = historyDepth s - 1 then buffer s else historyBuffer s i)"
      by (auto simp add: s1 s0_def fun_eq_iff)
    ultimately show ?thesis using differs True e hc
      by (simp add: s1 s0_def)
  qed
qed

lemma enter_history_append:
  assumes "mystrnicmp (buffer s) (historyBuffer s (historyCount s - 1))
           (length (historyBuffer s (historyCount s - 1))) \<noteq> 0"
    and "0 \<le> historyCount s" "historyCount s \<le> historyDepth s" "0 < historyDepth s"
    and "int (length (buffer s)) + 1 \<le> bufferSize s"
    and "\<And>i. 0 \<le> i \<Longrightarrow> i < historyCount s \<Longrightarrow> int (length (historyBuffer s i)) + 1 \<le> bufferSize s"
    and "historyDepth s * bufferSize s < 2 ^ 32"
  shows "enter_history s =
     Inr (if historyCount s = historyDepth s
          then s\<lparr>historyBuffer :=
                    (\<lambda>i. if 0 \<le> i \<and> i \<le> historyDepth s - 2 then historyBuffer s (i + 1)
                         else if i = historyDepth s - 1 then buffer s else historyBuffer s i),
                  whereInHistory := historyDepth s - 1, historyCount := historyDepth s\<rparr>
          else s\<lparr>historyBuffer := (historyBuffer s)(historyCount s := buffer s),
                  whereInHistory := historyCount s, historyCount := historyCount s + 1\<rparr>)"
proof -
  have "\<exists>s'. enter_history s = Inr s'"
  proof (cases "historyCount s = historyDepth s")
    case False
    have "historyCount s * bufferSize s + int (length (buffer s)) + 1 \<le> history_bytes s"
      using False assms by (intro history_slot_fits) simp_all
    then show ?thesis using False assms
      by (simp add: enter_history_def strcpy_history_def)
  next
    case True
    define s0 where "s0 = s\<lparr>historyCount := historyCount s - 1\<rparr>"
    have "\<exists>s1. shift_history [0 .. historyDepth s - 2] s0 = Inr s1"
    proof (rule shift_history_succeeds)
      show "(0::int) \<le> 0" by simp
      show "historyDepth s - 2 < historyDepth s0" by (simp add: s0_def)
      show "historyDepth s0 * bufferSize s0 < 2 ^ 32" using assms(7) by (simp add: s0_def)
      fix i :: int assume "0 \<le> i" "i \<le> historyDepth s - 2"
      then show "int (length (historyBuffer s0 (i + 1))) + 1 \<le> bufferSize s0"
        using assms(6) [of "i + 1"] True by (simp add: s0_def)
    qed
    then obtain s1 where sh: "shift_history [0 .. historyDepth s - 2] s0 = Inr s1" ..
    have s1: "s1 = s0\<lparr>historyBuffer := (\<lambda>i. if 0 \<le> i \<and> i \<le> historyDepth s - 2
                         then historyBuffer s0 (i + 1) else historyBuffer s0 i)\<rparr>"
      using shift_history_result [OF sh] .
    have "(historyDepth s - 1) * bufferSize s + int (length (buffer s)) + 1 \<le> history_bytes s"
      using assms by (intro history_slot_fits) simp_all
    then have "\<exists>s2. strcpy_history (historyCount s1) (buffer s1) s1 = Inr s2"
      using assms True by (simp add: s1 s0_def strcpy_history_def history_bytes_def)
    then show ?thesis using assms(1) True sh
      by (auto simp add: enter_history_def s0_def Let_def)
  qed
  then obtain s' where e: "enter_history s = Inr s'" ..
  from enter_history_result [OF e] assms(1) e show ?thesis by auto
qed

section \<open>The editor, key by key\<close>

subsection \<open>The cases of ProcessStandardSequence\<close>

lemma printable_char:
  assumes "myisprint c"
  shows "char_of c \<noteq> NUL" "ord (char_of c) = c"
proof -
  from assms have r: "32 \<le> c" "c \<le> 126" by (simp_all add: myisprint_def ord_def)
  then have m: "c mod 256 = c" by simp
  show o: "ord (char_of c) = c" using m by (simp add: ord_def)
  show "char_of c \<noteq> NUL"
  proof
    assume "char_of c = NUL"
    then have "ord (char_of c) = 0" by (simp add: ord_NUL)
    with o r show False by simp
  qed
qed

lemma line_matches_hits:
  "buf \<noteq> [] \<Longrightarrow>
   line_matches s buf =
     (filter (\<lambda>link. agrees (caseinsensitive s) (typed_name buf) (command link)) (head s) \<noteq> [])"
  by (simp add: line_matches_def list_ex_iff filter_empty_conv)

lemma on_other_unfold:
  "myisprint c \<Longrightarrow> int (keycount s) < bufferSize s \<Longrightarrow>
   store_char (keycount s) (char_of c) s = Inr sa \<Longrightarrow>
   CommandMatches False got (sa\<lparr>keycount := keycount sa + 1\<rparr>) = Inr (n, cbk, ps, sb) \<Longrightarrow>
   on_other c got s =
     (if n \<noteq> 0 then Inr (putch c sb)
      else case terminate_at (keycount sb - 1) (sb\<lparr>keycount := keycount sb - 1\<rparr>) of
             Inl e \<Rightarrow> Inl e
           | Inr s3 \<Rightarrow> Inr (putch 0x07 s3))"
  by (simp add: on_other_def)

lemma on_other_printable:
  assumes "myisprint c" "keycount s = length (buffer s)"
    and "int (length (buffer s)) + 2 \<le> bufferSize s" "cstring (buffer s)"
  shows "on_other c got s =
     Inr (if line_matches s (buffer s @ [char_of c])
          then s\<lparr>buffer := buffer s @ [char_of c], keycount := keycount s + 1,
                 trace := trace s @ [Putch c]\<rparr>
          else s\<lparr>trace := trace s @ [Putch 0x07]\<rparr>)"
proof -
  define sa where "sa = s\<lparr>buffer := buffer s @ [char_of c]\<rparr>"
  define s1 where "s1 = sa\<lparr>keycount := keycount sa + 1\<rparr>"
  define hits where "hits = filter (\<lambda>link. agrees (caseinsensitive s1) (typed_name (buffer s1))
      (command link)) (head s1)"
  have st: "store_char (keycount s) (char_of c) s = Inr sa"
    using assms(2,3) by (simp add: store_char_def sa_def)
  have cs: "cstring (buffer s1)"
    using assms(4) printable_char(1) [OF assms(1)] by (simp add: s1_def sa_def cstring_def)
  have ne: "buffer s1 \<noteq> []" by (simp add: s1_def sa_def)
  have cm: "CommandMatches False got (sa\<lparr>keycount := keycount sa + 1\<rparr>) =
      Inr (int (length hits), (if hits = [] then None else Some (last hits)),
           (if hits = [] then None else Some (argument_of (buffer s1))), s1)"
    using CommandMatches_validate [OF cs hits_def, of got] ne by (simp add: s1_def)
  have lm: "line_matches s (buffer s @ [char_of c]) = (hits \<noteq> [])"
    using line_matches_hits [of "buffer s @ [char_of c]" s] by (simp add: hits_def s1_def sa_def)
  have pre: "int (keycount s) < bufferSize s" using assms by simp
  note u = on_other_unfold [OF assms(1) pre st cm]
  show ?thesis
  proof (cases "hits = []")
    case True
    have "terminate_at (keycount s1 - 1) (s1\<lparr>keycount := keycount s1 - 1\<rparr>) = Inr s"
      using assms(2,3) by (simp add: terminate_at_def s1_def sa_def)
    then show ?thesis using True lm u
      by (simp add: putch_def)
  next
    case False
    then show ?thesis using lm u
      by (simp add: putch_def s1_def sa_def)
  qed
qed

lemma on_other_overrun:
  "myisprint c \<Longrightarrow> int (keycount s) + 1 = bufferSize s \<Longrightarrow> on_other c got s = Inl Overrun"
  by (simp add: on_other_def store_char_def)

lemma on_other_bell:
  "\<not> (myisprint c \<and> int (keycount s) < bufferSize s) \<Longrightarrow>
   on_other c got s = Inr (s\<lparr>trace := trace s @ [Putch 0x07]\<rparr>)"
  by (auto simp add: on_other_def putch_def)

lemma on_enter_empty:
  "buffer s = [] \<Longrightarrow> 0 < bufferSize s \<Longrightarrow>
   on_enter got s = Inr (runok, s\<lparr>trace := trace s @ [Puts []], keycount := 0, showPrompt := True\<rparr>)"
  by (simp add: on_enter_def puts_def terminate_at_def)

lemma on_enter_exec:
  assumes "buffer s \<noteq> []" "CommandMatches True got s = Inr (1, Some m, Some p, s1)"
    and "call_callback m p s1 = Inr (val, s2)" "enter_history s2 = Inr s3" "0 < bufferSize s3"
  shows "on_enter got s = Inr (val, s3\<lparr>keycount := 0, buffer := [], showPrompt := True\<rparr>)"
  using assms by (simp add: on_enter_def terminate_at_def)

lemma ProcessStandardSequence_other:
  "myisprint c \<Longrightarrow> c \<noteq> 0x5B \<Longrightarrow>
   ProcessStandardSequence c got s =
     (case on_other c got s of Inl e \<Rightarrow> Inl e | Inr s1 \<Rightarrow> Inr (runok, s1))"
  by (auto simp add: ProcessStandardSequence_def myisprint_def ord_def)

lemma Run_quiet:
  "\<not> showSignOnBanner s \<Longrightarrow> \<not> echo s \<Longrightarrow> port s \<Longrightarrow>
   CommandProcessor_Run (Some c) got s =
     (case (if leadinChar s then ProcessComplexSequence c s else Inr (c, s)) of
        Inl e \<Rightarrow> Inl e
      | Inr (c', s3) \<Rightarrow>
          (case ProcessStandardSequence c' got s3 of
             Inl e \<Rightarrow> Inl e
           | Inr (r, s4) \<Rightarrow> Inr (runok, s4)))"
  by (simp add: CommandProcessor_Run_def)

lemma Run_returns_runok:
  "CommandProcessor_Run input got s = Inr (r, s') \<Longrightarrow> r = runok"
  by (auto simp add: CommandProcessor_Run_def Let_def split: sum.splits option.splits if_splits)

section \<open>Run\<close>

lemma Run_printable:
  assumes "\<not> showSignOnBanner s" "\<not> echo s" "\<not> leadinChar s"
    and "myisprint c" "c \<noteq> 0x5B" "keycount s = length (buffer s)"
    and "int (length (buffer s)) + 2 \<le> bufferSize s" "cstring (buffer s)" "port s"
  shows "CommandProcessor_Run (Some c) got s =
     Inr (runok,
          if line_matches s (buffer s @ [char_of c])
          then s\<lparr>buffer := buffer s @ [char_of c], keycount := keycount s + 1,
                 trace := trace s @ [Putch c]\<rparr>
          else s\<lparr>trace := trace s @ [Putch 0x07]\<rparr>)"
  using assms(3)
  by (simp add: Run_quiet [OF assms(1,2,9)] ProcessStandardSequence_other [OF assms(4,5)]
      on_other_printable [OF assms(4,6,7,8)])

lemma Run_enter:
  assumes "\<not> showSignOnBanner s" "\<not> echo s" "\<not> leadinChar s" "port s"
  shows "CommandProcessor_Run (Some 0x0D) got s =
     (case on_enter got s of Inl e \<Rightarrow> Inl e | Inr (r, s4) \<Rightarrow> Inr (runok, s4))"
  using assms(3) by (simp add: Run_quiet [OF assms(1,2,4)] ProcessStandardSequence_enter)

text \<open>
  Claim C1: Run returns the exit signal when the byte it processes completes a submit whose
  uniquely matched callback returns the exit signal, and the continue signal otherwise.
  The code does not: \<open>CommandProcessor_Run\<close> calls \<open>ProcessStandardSequence\<close> and discards
  what it returns. With the built-in Exit command registered and the line \<open>Exit\<close> typed, the
  byte CR makes \<open>ProcessStandardSequence\<close> run the callback and return \<open>runexit\<close>, and Run
  returns \<open>runok\<close> with the same state.
\<close>

theorem Run_drops_the_exit_signal:
  "ProcessStandardSequence 0x0D True ((console [ExitMenu] 80 5)\<lparr>buffer := ''Exit'', keycount := 4\<rparr>)
     = Inr (runexit, (console [ExitMenu] 80 5)
             \<lparr>buffer := [], keycount := 0, showPrompt := True,
               trace := [Invoke ''Exit'' [],
                         Puts [CHR 0x0D, CHR 0x0A, CHR ''b'', CHR ''y'', CHR ''e'', CHR ''.'']]\<rparr>)
   \<and> CommandProcessor_Run (Some 0x0D) True
       ((console [ExitMenu] 80 5)\<lparr>buffer := ''Exit'', keycount := 4\<rparr>)
     = Inr (runok, (console [ExitMenu] 80 5)
             \<lparr>buffer := [], keycount := 0, showPrompt := True,
               trace := [Invoke ''Exit'' [],
                         Puts [CHR 0x0D, CHR 0x0A, CHR ''b'', CHR ''y'', CHR ''e'', CHR ''.'']]\<rparr>)"
proof -
  define s where "s = (console [ExitMenu] 80 5)\<lparr>buffer := ''Exit'', keycount := 4\<rparr>"
  define s2 where "s2 = s\<lparr>trace := [Invoke ''Exit'' [],
      Puts [CHR 0x0D, CHR 0x0A, CHR ''b'', CHR ''y'', CHR ''e'', CHR ''.'']]\<rparr>"
  have cs: "cstring (buffer s)" by (simp add: s_def cstring_def NUL_def)
  have ne: "buffer s \<noteq> []" by (simp add: s_def)
  have hits: "filter (\<lambda>link. agrees (caseinsensitive s) (typed_name (buffer s)) (command link)) (head s)
      = [ExitMenu]"
    by (simp add: s_def console_def at_start_def typed_name_def agrees_def ExitMenu_def)
  have cm: "CommandMatches True True s = Inr (1, Some ExitMenu, Some [], s)"
    using CommandMatches_one [OF cs ne hits, of True]
    by (simp add: s_def typed_name_def argument_of_def ExitMenu_def)
  have cb: "call_callback ExitMenu [] s = Inr (runexit, s2)"
    by (simp add: call_callback_def Exit_def puts_def ExitMenu_def s2_def s_def console_def at_start_def)
  have eh: "enter_history s2 = Inr s2"
    by (rule enter_history_repeat) (simp add: s2_def s_def console_def at_start_def mystrnicmp_def)
  have bs: "0 < bufferSize s2" by (simp add: s2_def s_def console_def)
  have oe: "on_enter True s = Inr (runexit, s2\<lparr>keycount := 0, buffer := [], showPrompt := True\<rparr>)"
    by (rule on_enter_exec [OF ne cm cb eh bs])
  have q: "\<not> showSignOnBanner s" "\<not> echo s" "\<not> leadinChar s" "port s"
    by (simp_all add: s_def console_def at_start_def)
  have "ProcessStandardSequence 0x0D True s
      = Inr (runexit, s2\<lparr>keycount := 0, buffer := [], showPrompt := True\<rparr>)"
    by (simp add: ProcessStandardSequence_enter oe)
  moreover have "CommandProcessor_Run (Some 0x0D) True s
      = Inr (runok, s2\<lparr>keycount := 0, buffer := [], showPrompt := True\<rparr>)"
    by (simp add: Run_enter [OF q] oe)
  ultimately show ?thesis
    by (simp add: s2_def s_def)
qed

text \<open>
  Claim C4: the line never grows past the configured capacity, a printable byte that would
  exceed it is answered with a bell, and every write into the line buffer stays within the
  allocation. The last part fails. The guard of the \<open>default\<close> case is
  \<open>keycount < cfg.bufferSize\<close>, and the accepted character is followed by a NUL written at
  \<open>buffer[keycount + 1]\<close>: with \<open>keycount = bufferSize - 1\<close> that NUL lands at
  \<open>buffer[bufferSize]\<close>, one byte behind the \<open>malloc(maxCmdLen)\<close> of Init. With a buffer of
  six bytes and the command \<open>Status\<close> registered, the bytes of \<open>Statu\<close> are accepted and
  echoed, and the byte \<open>s\<close> overruns the allocation.
\<close>

theorem sixth_character_overruns_six_bytes:
  "feed [0x53, 0x74, 0x61, 0x74, 0x75] (console [plain ''Status''] 6 2)
     = Inr ((console [plain ''Status''] 6 2)
             \<lparr>buffer := ''Statu'', keycount := 5,
               trace := [Putch 0x53, Putch 0x74, Putch 0x61, Putch 0x74, Putch 0x75]\<rparr>)
   \<and> CommandProcessor_Run (Some 0x73) True
       ((console [plain ''Status''] 6 2)
             \<lparr>buffer := ''Statu'', keycount := 5,
               trace := [Putch 0x53, Putch 0x74, Putch 0x61, Putch 0x74, Putch 0x75]\<rparr>)
     = Inl Overrun"
proof -
  define s0 where "s0 = console [plain ''Status''] 6 2"
  have step: "CommandProcessor_Run (Some (ord ch)) True (s0\<lparr>buffer := b, keycount := length b, trace := t\<rparr>)
      = Inr (runok, s0\<lparr>buffer := b @ [ch], keycount := length (b @ [ch]),
                        trace := t @ [Putch (ord ch)]\<rparr>)"
    if "myisprint (ord ch)" "ord ch \<noteq> 0x5B" "length b \<le> 4" "cstring b"
       "agrees False (typed_name (b @ [ch])) ''Status''" for ch b t
  proof -
    have lm: "line_matches (s0\<lparr>buffer := b, keycount := length b, trace := t\<rparr>) (b @ [ch])"
      using that(5) by (simp add: line_matches_def s0_def console_def at_start_def plain_def)
    show ?thesis
      using Run_printable [of "s0\<lparr>buffer := b, keycount := length b, trace := t\<rparr>" "ord ch" True]
        that lm
      by (simp add: s0_def console_def at_start_def) (simp add: ord_def)
  qed
  have p5: "myisprint 0x73" by (simp add: myisprint_def ord_def)
  have s0: "s0 = s0\<lparr>buffer := [], keycount := length ([] :: string), trace := []\<rparr>"
    by (simp add: s0_def console_def at_start_def)
  have r1: "CommandProcessor_Run (Some 0x53) True s0
      = Inr (runok, s0\<lparr>buffer := ''S'', keycount := length ''S'', trace := [Putch 0x53]\<rparr>)"
    using step [of "CHR ''S''" "[]" "[]"] s0
    by (simp add: cstring_def typed_name_def agrees_def myisprint_def ord_def)
  have r2: "CommandProcessor_Run (Some 0x74) True
        (s0\<lparr>buffer := ''S'', keycount := length ''S'', trace := [Putch 0x53]\<rparr>)
      = Inr (runok, s0\<lparr>buffer := ''St'', keycount := length ''St'', trace := [Putch 0x53, Putch 0x74]\<rparr>)"
    using step [of "CHR ''t''" "''S''" "[Putch 0x53]"]
    by (simp add: cstring_def NUL_def typed_name_def agrees_def myisprint_def ord_def)
  have r3: "CommandProcessor_Run (Some 0x61) True
        (s0\<lparr>buffer := ''St'', keycount := length ''St'', trace := [Putch 0x53, Putch 0x74]\<rparr>)
      = Inr (runok, s0\<lparr>buffer := ''Sta'', keycount := length ''Sta'',
                        trace := [Putch 0x53, Putch 0x74, Putch 0x61]\<rparr>)"
    using step [of "CHR ''a''" "''St''" "[Putch 0x53, Putch 0x74]"]
    by (simp add: cstring_def NUL_def typed_name_def agrees_def myisprint_def ord_def)
  have r4: "CommandProcessor_Run (Some 0x74) True
        (s0\<lparr>buffer := ''Sta'', keycount := length ''Sta'', trace := [Putch 0x53, Putch 0x74, Putch 0x61]\<rparr>)
      = Inr (runok, s0\<lparr>buffer := ''Stat'', keycount := length ''Stat'',
                        trace := [Putch 0x53, Putch 0x74, Putch 0x61, Putch 0x74]\<rparr>)"
    using step [of "CHR ''t''" "''Sta''" "[Putch 0x53, Putch 0x74, Putch 0x61]"]
    by (simp add: cstring_def NUL_def typed_name_def agrees_def myisprint_def ord_def)
  have r5: "CommandProcessor_Run (Some 0x75) True
        (s0\<lparr>buffer := ''Stat'', keycount := length ''Stat'',
            trace := [Putch 0x53, Putch 0x74, Putch 0x61, Putch 0x74]\<rparr>)
      = Inr (runok, s0\<lparr>buffer := ''Statu'', keycount := length ''Statu'',
                        trace := [Putch 0x53, Putch 0x74, Putch 0x61, Putch 0x74, Putch 0x75]\<rparr>)"
    using step [of "CHR ''u''" "''Stat''" "[Putch 0x53, Putch 0x74, Putch 0x61, Putch 0x74]"]
    by (simp add: cstring_def NUL_def typed_name_def agrees_def myisprint_def ord_def)
  have f: "feed [0x53, 0x74, 0x61, 0x74, 0x75] s0
     = Inr (s0\<lparr>buffer := ''Statu'', keycount := 5,
               trace := [Putch 0x53, Putch 0x74, Putch 0x61, Putch 0x74, Putch 0x75]\<rparr>)"
    using r1 r2 r3 r4 r5 by simp
  define s5 where "s5 = s0\<lparr>buffer := ''Statu'', keycount := 5,
               trace := [Putch 0x53, Putch 0x74, Putch 0x61, Putch 0x74, Putch 0x75]\<rparr>"
  have q: "\<not> showSignOnBanner s5" "\<not> echo s5" "\<not> leadinChar s5" "port s5"
    by (simp_all add: s5_def s0_def console_def at_start_def)
  have "on_other 0x73 True s5 = Inl Overrun"
    by (rule on_other_overrun [OF p5]) (simp add: s5_def s0_def console_def)
  then have "CommandProcessor_Run (Some 0x73) True s5 = Inl Overrun"
    using q(3) by (simp add: Run_quiet [OF q(1,2,4)] ProcessStandardSequence_other [OF p5])
  then show ?thesis using f by (simp add: s5_def s0_def)
qed

section \<open>Submitting a line\<close>

subsection \<open>The stored entries after a push\<close>

lemma map_upto_shift: "map (\<lambda>i. f (i + 1)) [a .. b] = map f [a + 1 .. b + 1]"
proof (rule nth_equalityI)
  show "length (map (\<lambda>i. f (i + 1)) [a .. b]) = length (map f [a + 1 .. b + 1])" by simp
next
  fix k assume "k < length (map (\<lambda>i. f (i + 1)) [a .. b])"
  then have k: "a + int k \<le> b" by simp
  then have "[a .. b] ! k = a + int k" "[a + 1 .. b + 1] ! k = a + 1 + int k" by simp_all
  then show "map (\<lambda>i. f (i + 1)) [a .. b] ! k = map f [a + 1 .. b + 1] ! k"
    using k by (simp add: add.commute add.left_commute)
qed

lemma stored_push_free:
  assumes "0 \<le> historyCount s"
  shows "stored (s\<lparr>historyBuffer := (historyBuffer s)(historyCount s := line),
                  whereInHistory := w, historyCount := historyCount s + 1\<rparr>)
         = stored s @ [line]"
proof -
  have "[0 .. historyCount s] = [0 .. historyCount s - 1] @ [historyCount s]"
    using assms by (rule upto_rec2)
  then show ?thesis by (simp add: stored_def)
qed

lemma stored_push_full:
  assumes "0 < historyDepth s" "historyCount s = historyDepth s"
  shows "stored (s\<lparr>historyBuffer :=
                    (\<lambda>i. if 0 \<le> i \<and> i \<le> historyDepth s - 2 then historyBuffer s (i + 1)
                         else if i = historyDepth s - 1 then line else historyBuffer s i),
                  whereInHistory := w, historyCount := historyDepth s\<rparr>)
         = tl (stored s) @ [line]"
proof -
  let ?d = "historyDepth s"
  let ?h = "\<lambda>i. if 0 \<le> i \<and> i \<le> ?d - 2 then historyBuffer s (i + 1)
                         else if i = ?d - 1 then line else historyBuffer s i"
  have a: "[0 .. ?d - 1] = [0 .. ?d - 2] @ [?d - 1]"
    using assms(1) upto_rec2 [of 0 "?d - 1"] by simp
  have b: "[0 .. ?d - 1] = 0 # [1 .. ?d - 1]"
    using assms(1) upto_rec1 [of 0 "?d - 1"] by simp
  have "map ?h [0 .. ?d - 2] = map (\<lambda>i. historyBuffer s (i + 1)) [0 .. ?d - 2]"
    by (rule map_cong) auto
  also have "\<dots> = map (historyBuffer s) [1 .. ?d - 1]"
    using map_upto_shift [of "historyBuffer s" 0 "?d - 2"] by simp
  finally have "map ?h [0 .. ?d - 2] = map (historyBuffer s) [1 .. ?d - 1]" .
  moreover have "tl (stored s) = map (historyBuffer s) [1 .. ?d - 1]"
    using assms(2) b by (simp add: stored_def)
  moreover have "stored (s\<lparr>historyBuffer := ?h, whereInHistory := w, historyCount := ?d\<rparr>)
      = map ?h [0 .. ?d - 2] @ [line]"
    using a by (simp add: stored_def)
  ultimately show ?thesis by simp
qed

lemma stored_frame:
  "historyBuffer s' = historyBuffer s \<Longrightarrow> historyCount s' = historyCount s \<Longrightarrow> stored s' = stored s"
  by (simp add: stored_def)

subsection \<open>What an executing CommandMatches returns\<close>

lemma CommandMatches_execute_result:
  assumes "cstring (buffer s)" "buffer s \<noteq> []"
    and "CommandMatches True got s = Inr (1, Some m, Some p, s1)"
  shows "filter (\<lambda>link. agrees (caseinsensitive s) (typed_name (buffer s)) (command link)) (head s) = [m]"
    and "\<exists>t. s1 = s\<lparr>buffer := buffer s1, trace := t\<rparr>"
    and "(typed_name (buffer s) = command m \<and> buffer s1 = buffer s)
         \<or> (typed_name (buffer s) \<noteq> command m
            \<and> buffer s1 = command m @ '' '' @ argument_of (buffer s)
            \<and> int (length (buffer s1)) + 1 \<le> bufferSize s)"
    and "p = argument_of (buffer s1)"
proof -
  define hits where "hits = filter (\<lambda>link. agrees (caseinsensitive s) (typed_name (buffer s))
      (command link)) (head s)"
  have one: "length hits = 1"
  proof (rule ccontr)
    assume n: "length hits \<noteq> 1"
    have "CommandMatches True got s = Inr (int (length hits),
           (if hits = [] then None else Some (last hits)),
           (if hits = [] then None else Some (argument_of (buffer s))), s)"
      using CommandMatches_not_one [OF assms(1) hits_def n, of got]
        CommandMatches_validate [OF assms(1) hits_def, of got] assms(2) by simp
    with assms(3) have "int (length hits) = 1" by simp
    with n show False by simp
  qed
  then obtain m' where m': "hits = [m']" by (cases hits) auto
  note r = CommandMatches_one [OF assms(1,2) m' [unfolded hits_def], of got]
  have mm: "m' = m" using r assms(3) by (auto split: if_splits)
  show "filter (\<lambda>link. agrees (caseinsensitive s) (typed_name (buffer s)) (command link)) (head s) = [m]"
    using m' mm by (simp add: hits_def)
  show "\<exists>t. s1 = s\<lparr>buffer := buffer s1, trace := t\<rparr>"
  proof (cases "typed_name (buffer s) = command m")
    case True
    then have "s1 = s" using r assms(3) mm by simp
    then have "s1 = s\<lparr>buffer := buffer s1, trace := trace s\<rparr>" by simp
    then show ?thesis ..
  next
    case False
    then have "s1 = s\<lparr>buffer := command m @ '' '' @ argument_of (buffer s),
               trace := trace s
                 @ concat (replicate (length (buffer s)) [Putch 0x08, Putch 0x20, Putch 0x08])
                 @ map (\<lambda>c. Putch (ord c)) (command m @ '' '' @ argument_of (buffer s))\<rparr>"
      using r assms(3) mm by (auto split: if_splits)
    then have "s1 = s\<lparr>buffer := buffer s1, trace := trace s
                 @ concat (replicate (length (buffer s)) [Putch 0x08, Putch 0x20, Putch 0x08])
                 @ map (\<lambda>c. Putch (ord c)) (command m @ '' '' @ argument_of (buffer s))\<rparr>"
      by simp
    then show ?thesis ..
  qed
  show "(typed_name (buffer s) = command m \<and> buffer s1 = buffer s)
         \<or> (typed_name (buffer s) \<noteq> command m
            \<and> buffer s1 = command m @ '' '' @ argument_of (buffer s)
            \<and> int (length (buffer s1)) + 1 \<le> bufferSize s)"
    using r assms(3) mm by (auto split: if_splits)
  show "p = argument_of (buffer s1)"
    using r assms(3) mm by (auto split: if_splits)
qed

subsection \<open>A submit that executes a command\<close>

lemma submit_frame:
  assumes "cstring (buffer s)" "buffer s \<noteq> []"
    and "CommandMatches True got s = Inr (1, Some m, Some p, s1)"
    and "call_callback m p s1 = Inr (val, s2)"
  shows "\<exists>t e. s2 = s\<lparr>buffer := buffer s1, trace := t, echo := e\<rparr>"
proof -
  from CommandMatches_execute_result(2) [OF assms(1,2,3)]
  obtain t where s1: "s1 = s\<lparr>buffer := buffer s1, trace := t\<rparr>" ..
  from call_callback_frame [OF assms(4)]
  obtain t' e where s2: "s2 = s1\<lparr>trace := t', echo := e\<rparr>" by blast
  have "s2 = s\<lparr>buffer := buffer s1, trace := t', echo := e\<rparr>"
    by (subst s2, subst s1) simp
  then show ?thesis by blast
qed

lemma submitted_line:
  assumes "cstring (buffer s)" "buffer s \<noteq> []" "cstring (command m)"
    and "CommandMatches True got s = Inr (1, Some m, Some p, s1)"
  shows "buffer s1 \<noteq> []" "cstring (buffer s1)"
proof -
  note r = CommandMatches_execute_result(3) [OF assms(1,2,4)]
  show "buffer s1 \<noteq> []" using r assms(2) by auto
  have "cstring (command m @ '' '' @ argument_of (buffer s))"
    using assms(3) cstring_argument [OF assms(1)] by (simp add: cstring_def NUL_def)
  then show "cstring (buffer s1)" using r assms(1) by auto
qed

lemma on_enter_repeat:
  assumes "cstring (buffer s)" "buffer s \<noteq> []" "0 < bufferSize s"
    and "CommandMatches True got s = Inr (1, Some m, Some p, s1)"
    and "call_callback m p s1 = Inr (val, s2)"
    and "mystrnicmp (buffer s1) (historyBuffer s (historyCount s - 1))
           (length (historyBuffer s (historyCount s - 1))) = 0"
  shows "on_enter got s = Inr (val, s2\<lparr>keycount := 0, buffer := [], showPrompt := True\<rparr>)"
proof -
  from submit_frame [OF assms(1,2,4,5)]
  obtain t e where s2: "s2 = s\<lparr>buffer := buffer s1, trace := t, echo := e\<rparr>" by blast
  have f: "buffer s2 = buffer s1" "historyBuffer s2 = historyBuffer s"
    "historyCount s2 = historyCount s" "bufferSize s2 = bufferSize s"
    by (subst s2, simp)+
  have "enter_history s2 = Inr s2"
    by (rule enter_history_repeat) (simp add: f assms(6))
  then show ?thesis
    using on_enter_exec [OF assms(2,4,5), of s2] assms(3) f by simp
qed

lemma on_enter_push:
  assumes "cstring (buffer s)" "buffer s \<noteq> []" "0 < bufferSize s"
    and "CommandMatches True got s = Inr (1, Some m, Some p, s1)"
    and "call_callback m p s1 = Inr (val, s2)"
    and "mystrnicmp (buffer s1) (historyBuffer s (historyCount s - 1))
           (length (historyBuffer s (historyCount s - 1))) \<noteq> 0"
    and "0 \<le> historyCount s" "historyCount s \<le> historyDepth s" "0 < historyDepth s"
    and "int (length (buffer s1)) + 1 \<le> bufferSize s"
    and "list_all (\<lambda>entry. int (length entry) + 1 \<le> bufferSize s) (stored s)"
    and "historyDepth s * bufferSize s < 2 ^ 32"
  shows "\<exists>s'. on_enter got s = Inr (val, s')
     \<and> historyDepth s' = historyDepth s
     \<and> historyCount s' = (if historyCount s = historyDepth s then historyDepth s
                           else historyCount s + 1)
     \<and> whereInHistory s' = historyCount s' - 1
     \<and> stored s' = (if historyCount s = historyDepth s then tl (stored s) else stored s)
                     @ [buffer s1]"
proof -
  from submit_frame [OF assms(1,2,4,5)]
  obtain t e where s2: "s2 = s\<lparr>buffer := buffer s1, trace := t, echo := e\<rparr>" by blast
  have f: "buffer s2 = buffer s1" "historyBuffer s2 = historyBuffer s"
    "historyCount s2 = historyCount s" "bufferSize s2 = bufferSize s"
    "historyDepth s2 = historyDepth s"
    by (subst s2, simp)+
  have st: "stored s2 = stored s" using f by (simp add: stored_def)
  have fits: "int (length (historyBuffer s2 i)) + 1 \<le> bufferSize s2"
    if "0 \<le> i" "i < historyCount s2" for i
  proof -
    have "historyBuffer s i \<in> set (stored s)" using that f by (simp add: stored_def)
    then show ?thesis using assms(11) f by (simp add: list_all_iff)
  qed
  define s3 where "s3 = (if historyCount s2 = historyDepth s2
          then s2\<lparr>historyBuffer :=
                    (\<lambda>i. if 0 \<le> i \<and> i \<le> historyDepth s2 - 2 then historyBuffer s2 (i + 1)
                         else if i = historyDepth s2 - 1 then buffer s2 else historyBuffer s2 i),
                  whereInHistory := historyDepth s2 - 1, historyCount := historyDepth s2\<rparr>
          else s2\<lparr>historyBuffer := (historyBuffer s2)(historyCount s2 := buffer s2),
                  whereInHistory := historyCount s2, historyCount := historyCount s2 + 1\<rparr>)"
  have eh: "enter_history s2 = Inr s3"
    unfolding s3_def
  proof (rule enter_history_append)
    show "mystrnicmp (buffer s2) (historyBuffer s2 (historyCount s2 - 1))
           (length (historyBuffer s2 (historyCount s2 - 1))) \<noteq> 0"
      using assms(6) f by simp
    show "0 \<le> historyCount s2" "historyCount s2 \<le> historyDepth s2" "0 < historyDepth s2"
      "int (length (buffer s2)) + 1 \<le> bufferSize s2"
      using assms(7-10) f by simp_all
    show "\<And>i. 0 \<le> i \<Longrightarrow> i < historyCount s2 \<Longrightarrow> int (length (historyBuffer s2 i)) + 1 \<le> bufferSize s2"
      by (rule fits)
    show "historyDepth s2 * bufferSize s2 < 2 ^ 32" using assms(12) f by simp
  qed
  have bs: "0 < bufferSize s3" using assms(3) f by (simp add: s3_def)
  define s' where "s' = s3\<lparr>keycount := 0, buffer := [], showPrompt := True\<rparr>"
  have oe: "on_enter got s = Inr (val, s')"
    unfolding s'_def by (rule on_enter_exec [OF assms(2,4,5) eh bs])
  have st3: "stored s3 = (if historyCount s = historyDepth s then tl (stored s) else stored s)
                     @ [buffer s1]"
  proof (cases "historyCount s = historyDepth s")
    case True
    then show ?thesis
      using stored_push_full [where s = s2 and line = "buffer s2" and w = "historyDepth s2 - 1"] assms(9) f st
      by (simp add: s3_def)
  next
    case False
    then show ?thesis
      using stored_push_free [where s = s2 and line = "buffer s2" and w = "historyCount s2"] assms(7) f st
      by (simp add: s3_def)
  qed
  have "stored s' = stored s3" by (simp add: s'_def stored_def)
  moreover have "historyDepth s' = historyDepth s" using f by (simp add: s'_def s3_def)
  moreover have "historyCount s' = (if historyCount s = historyDepth s then historyDepth s
                           else historyCount s + 1)" using f by (simp add: s'_def s3_def)
  moreover have "whereInHistory s' = historyCount s' - 1" using f by (simp add: s'_def s3_def)
  ultimately show ?thesis using oe st3 by auto
qed

text \<open>The duplicate check in terms of the letters of the two lines.\<close>

lemma repeat_check_caseless_prefix:
  assumes "line \<noteq> []" "cstring line"
    and "map mytolower (take (length prev) line) = map mytolower prev"
  shows "mystrnicmp line prev (length prev) = 0"
proof -
  have "length (take (length prev) line) = length prev"
    using assms(3) map_eq_imp_length_eq by fastforce
  then have le: "length prev \<le> length line" by simp
  have nul: "NUL \<notin> set line" using assms(2) by (simp add: cstring_def)
  show ?thesis
    using mystrnicmp_eq_0 [OF assms(1) nul, of prev "length prev"] le assms(3)
    by (simp add: min_absorb1)
qed

text \<open>A line whose typed name is the full name of a unique host command.\<close>

lemma submit_exact_host:
  assumes "cstring (buffer s)" "buffer s \<noteq> []"
    and "filter (\<lambda>link. agrees (caseinsensitive s) (typed_name (buffer s)) (command link)) (head s) = [m]"
    and "typed_name (buffer s) = command m" "callback m = host f"
  shows "CommandMatches True got s = Inr (1, Some m, Some (argument_of (buffer s)), s)"
    and "call_callback m (argument_of (buffer s)) s
         = Inr (f (argument_of (buffer s)),
                s\<lparr>trace := trace s @ [Invoke (command m) (argument_of (buffer s))]\<rparr>)"
  using CommandMatches_one [OF assms(1,2,3), of got] assms(4,5)
  by (simp_all add: call_callback_def)

text \<open>
  Claim C10: on every submit that executes a command, the duplicate check compares the
  submitted line with the most recent history entry case-insensitively, whatever the
  configured case rule, and only up to the stored entry's length; so a line that differs
  from the previous entry only in letter case, or that only extends it, is not appended.

  The submit finds exactly one match (\<open>CommandMatches\<close> returns count \<open>1\<close> and leaves the
  submitted line in the buffer of \<open>s1\<close>) and the callback returns. If the submitted line,
  cut to the length of the entry in slot \<open>historyCount - 1\<close>, equals that entry up to letter
  case, then the submit ends with the history as it was: same count, same slots, same
  navigation index. Nothing is assumed about \<open>caseinsensitive\<close>. Lines that differ from
  the entry only in case and lines that extend it both satisfy the hypothesis.
\<close>

theorem repeat_check_is_caseless_and_prefix_only:
  assumes "cstring (buffer s)" "buffer s \<noteq> []" "0 < bufferSize s"
    and "CommandMatches True got s = Inr (1, Some m, Some p, s1)"
    and "cstring (command m)"
    and "call_callback m p s1 = Inr (val, s2)"
    and "map mytolower (take (length (historyBuffer s (historyCount s - 1))) (buffer s1))
         = map mytolower (historyBuffer s (historyCount s - 1))"
  shows "ProcessStandardSequence 0x0D got s
           = Inr (val, s2\<lparr>keycount := 0, buffer := [], showPrompt := True\<rparr>)
       \<and> historyCount s2 = historyCount s \<and> historyBuffer s2 = historyBuffer s
       \<and> whereInHistory s2 = whereInHistory s"
proof -
  note l = submitted_line [OF assms(1,2,5,4)]
  have z: "mystrnicmp (buffer s1) (historyBuffer s (historyCount s - 1))
           (length (historyBuffer s (historyCount s - 1))) = 0"
    by (rule repeat_check_caseless_prefix [OF l assms(7)])
  from submit_frame [OF assms(1,2,4,6)]
  obtain t e where s2: "s2 = s\<lparr>buffer := buffer s1, trace := t, echo := e\<rparr>" by blast
  have f: "historyCount s2 = historyCount s" "historyBuffer s2 = historyBuffer s"
    "whereInHistory s2 = whereInHistory s"
    by (subst s2, simp)+
  show ?thesis
    using on_enter_repeat [OF assms(1,2,3,4,6) z] f
    by (simp add: ProcessStandardSequence_enter)
qed

theorem repeat_check_is_caseless_and_prefix_only_witness:
  "cstring (buffer ((console [plain ''Go''] 80 5)
        \<lparr>buffer := ''Go ABCD'', keycount := 7, historyBuffer := (\<lambda>i. [])(0 := ''Go abc''),
          historyCount := 1\<rparr>))
   \<and> \<not> caseinsensitive ((console [plain ''Go''] 80 5)
        \<lparr>buffer := ''Go ABCD'', keycount := 7, historyBuffer := (\<lambda>i. [])(0 := ''Go abc''),
          historyCount := 1\<rparr>)
   \<and> CommandMatches True True ((console [plain ''Go''] 80 5)
        \<lparr>buffer := ''Go ABCD'', keycount := 7, historyBuffer := (\<lambda>i. [])(0 := ''Go abc''),
          historyCount := 1\<rparr>)
       = Inr (1, Some (plain ''Go''), Some ''ABCD'', (console [plain ''Go''] 80 5)
        \<lparr>buffer := ''Go ABCD'', keycount := 7, historyBuffer := (\<lambda>i. [])(0 := ''Go abc''),
          historyCount := 1\<rparr>)
   \<and> ProcessStandardSequence 0x0D True ((console [plain ''Go''] 80 5)
        \<lparr>buffer := ''Go ABCD'', keycount := 7, historyBuffer := (\<lambda>i. [])(0 := ''Go abc''),
          historyCount := 1\<rparr>)
       = Inr (runok, (console [plain ''Go''] 80 5)
        \<lparr>buffer := [], keycount := 0, historyBuffer := (\<lambda>i. [])(0 := ''Go abc''),
          historyCount := 1, showPrompt := True, trace := [Invoke ''Go'' ''ABCD'']\<rparr>)"
proof -
  define s where "s = (console [plain ''Go''] 80 5)
        \<lparr>buffer := ''Go ABCD'', keycount := 7, historyBuffer := (\<lambda>i. [])(0 := ''Go abc''),
          historyCount := 1\<rparr>"
  have cs: "cstring (buffer s)" by (simp add: s_def cstring_def NUL_def)
  have ne: "buffer s \<noteq> []" by (simp add: s_def)
  have bs: "0 < bufferSize s" by (simp add: s_def console_def)
  have tn: "typed_name (buffer s) = ''Go''" "argument_of (buffer s) = ''ABCD''"
    by (simp_all add: s_def typed_name_def argument_of_def)
  have hits: "filter (\<lambda>link. agrees (caseinsensitive s) (typed_name (buffer s)) (command link)) (head s)
      = [plain ''Go'']"
    by (simp add: tn) (simp add: s_def console_def at_start_def agrees_def plain_def)
  have ex: "typed_name (buffer s) = command (plain ''Go'')"
    "callback (plain ''Go'') = host (\<lambda>p. runok)"
    by (simp_all add: tn plain_def)
  note sub = submit_exact_host(1) [OF cs ne hits ex, where got = True, unfolded tn]
    submit_exact_host(2) [OF cs ne hits ex, unfolded tn]
  have cm: "CommandMatches True True s = Inr (1, Some (plain ''Go''), Some ''ABCD'', s)"
    using sub(1) by (simp add: plain_def)
  have cb: "call_callback (plain ''Go'') ''ABCD'' s
      = Inr (runok, s\<lparr>trace := trace s @ [Invoke ''Go'' ''ABCD'']\<rparr>)"
    using sub(2) by (simp add: plain_def)
  have cn: "cstring (command (plain ''Go''))" by (simp add: plain_def cstring_def NUL_def)
  have pre: "map mytolower (take (length (historyBuffer s (historyCount s - 1))) (buffer s))
         = map mytolower (historyBuffer s (historyCount s - 1))"
  proof -
    have "map mytolower ''Go ABC'' = map mytolower ''Go abc''" by code_simp
    then show ?thesis by (simp add: s_def)
  qed
  show ?thesis
    using repeat_check_is_caseless_and_prefix_only [OF cs ne bs cm cn cb pre] cs cm
    by (simp add: s_def [symmetric]) (simp add: s_def console_def at_start_def)
qed

section \<open>The history\<close>

lemma submit_exact_host_run:
  assumes "cstring (buffer s)" "buffer s \<noteq> []"
    and "filter (\<lambda>link. agrees (caseinsensitive s) (typed_name (buffer s)) (command link)) (head s) = [m]"
    and "typed_name (buffer s) = command m" "callback m = host f"
    and "enter_history (s\<lparr>trace := trace s @ [Invoke (command m) (argument_of (buffer s))]\<rparr>) = Inr s3"
    and "0 < bufferSize s3"
  shows "ProcessStandardSequence 0x0D got s
     = Inr (f (argument_of (buffer s)), s3\<lparr>keycount := 0, buffer := [], showPrompt := True\<rparr>)"
  using on_enter_exec [OF assms(2) submit_exact_host(1) [OF assms(1-5)]
      submit_exact_host(2) [OF assms(1-5)] assms(6,7)]
  by (simp add: ProcessStandardSequence_enter)

lemma upto_0_1: "[0 .. (1::int)] = [0, 1]"
  by (simp add: upto.simps)

lemma char_of_ord: "char_of (ord c) = c"
  by (simp add: ord_def)

text \<open>
  One line of a single letter, typed and submitted: the bytes \<open>ch\<close> and CR, with the
  one-letter command \<open>ch\<close> registered among \<open>A\<close>, \<open>B\<close>, \<open>C\<close>.
\<close>

lemma letter_and_return:
  assumes "head s = [plain ''A'', plain ''B'', plain ''C'']" "\<not> caseinsensitive s"
    and "bufferSize s = 6" "\<not> showSignOnBanner s" "\<not> echo s" "\<not> leadinChar s" "port s"
    and "buffer s = []" "keycount s = 0"
    and "ch = CHR ''A'' \<or> ch = CHR ''B'' \<or> ch = CHR ''C''"
    and "enter_history (s\<lparr>buffer := [ch], keycount := 1,
            trace := trace s @ [Putch (ord ch), Invoke [ch] []]\<rparr>) = Inr s3"
    and "bufferSize s3 = 6"
  shows "feed [ord ch, 0x0D] s = Inr (s3\<lparr>keycount := 0, buffer := [], showPrompt := True\<rparr>)"
proof -
  define s1 where "s1 = s\<lparr>buffer := [ch], keycount := 1, trace := trace s @ [Putch (ord ch)]\<rparr>"
  have p: "myisprint (ord ch)" "ord ch \<noteq> 0x5B"
    using assms(10) by (auto simp add: myisprint_def ord_def)
  have lm: "line_matches s (buffer s @ [ch])"
    using assms(1,2,8,10) by (auto simp add: line_matches_def typed_name_def agrees_def plain_def)
  have r1: "CommandProcessor_Run (Some (ord ch)) True s = Inr (runok, s1)"
    using Run_printable [OF assms(4,5,6) p, of True] assms(3,7,8,9) lm
    by (simp add: cstring_def char_of_ord s1_def)
  have q: "\<not> showSignOnBanner s1" "\<not> echo s1" "\<not> leadinChar s1" "port s1"
    using assms(4,5,6,7) by (simp_all add: s1_def)
  have cs: "cstring (buffer s1)" "buffer s1 \<noteq> []"
    using assms(10) by (auto simp add: s1_def cstring_def NUL_def)
  have hits: "filter (\<lambda>link. agrees (caseinsensitive s1) (typed_name (buffer s1)) (command link))
      (head s1) = [plain [ch]]"
    using assms(1,2,10) by (auto simp add: s1_def typed_name_def agrees_def plain_def)
  have ex: "typed_name (buffer s1) = command (plain [ch])" "callback (plain [ch]) = host (\<lambda>p. runok)"
    using assms(10) by (auto simp add: s1_def typed_name_def plain_def)
  have arg: "argument_of (buffer s1) = []" by (simp add: s1_def argument_of_def)
  have eh: "enter_history (s1\<lparr>trace := trace s1 @ [Invoke (command (plain [ch]))
        (argument_of (buffer s1))]\<rparr>) = Inr s3"
    using assms(11) by (simp add: arg plain_def) (simp add: s1_def)
  have b3: "0 < bufferSize s3" using assms(12) by simp
  have "ProcessStandardSequence 0x0D True s1
      = Inr (runok, s3\<lparr>keycount := 0, buffer := [], showPrompt := True\<rparr>)"
    using submit_exact_host_run [OF cs hits ex eh b3, of True] by (simp add: arg)
  then have r2: "CommandProcessor_Run (Some 0x0D) True s1
      = Inr (runok, s3\<lparr>keycount := 0, buffer := [], showPrompt := True\<rparr>)"
    using q(3) by (simp add: Run_quiet [OF q(1,2,4)])
  show ?thesis using r1 r2 by simp
qed


text \<open>
  Claim C5: the history holds at most \<open>depth\<close> entries at every instant, and pushing
  \<open>depth + 1\<close> distinct lines drops exactly the oldest and keeps the others in order (depth
  2, submits \<open>A\<close>, \<open>B\<close>, \<open>C\<close> leave \<open>B\<close>, \<open>C\<close>).

  The code does not do this for the claim's own example. The duplicate check that decides
  whether a submitted line is entered compares it with the string at
  \<open>historyBuffer[(historyCount - 1) * bufferSize]\<close>; while the history is empty that is
  slot \<open>-1\<close>, the bytes in front of the history allocation, and the comparison runs over the
  length of the string found there. With the commands \<open>A\<close>, \<open>B\<close>, \<open>C\<close> registered and a
  history of depth 2, the bytes \<open>A\<close> CR \<open>B\<close> CR \<open>C\<close> CR run the three commands; when a zero
  byte stands in front of the allocation every line is taken for a repeat and the history
  stays empty, and when the bytes \<open>zz\<close> stand there the history ends as \<open>B\<close>, \<open>C\<close>.
\<close>

theorem three_submits_and_the_bytes_before_the_history:
  "feed [0x41, 0x0D, 0x42, 0x0D, 0x43, 0x0D]
       (console [plain ''A'', plain ''B'', plain ''C''] 6 2)
     = Inr ((console [plain ''A'', plain ''B'', plain ''C''] 6 2)
          \<lparr>showPrompt := True,
            trace := [Putch 0x41, Invoke ''A'' [], Putch 0x42, Invoke ''B'' [],
                      Putch 0x43, Invoke ''C'' []]\<rparr>)
   \<and> historyCount ((console [plain ''A'', plain ''B'', plain ''C''] 6 2)
          \<lparr>showPrompt := True,
            trace := [Putch 0x41, Invoke ''A'' [], Putch 0x42, Invoke ''B'' [],
                      Putch 0x43, Invoke ''C'' []]\<rparr>) = 0
   \<and> stored ((console [plain ''A'', plain ''B'', plain ''C''] 6 2)
          \<lparr>showPrompt := True,
            trace := [Putch 0x41, Invoke ''A'' [], Putch 0x42, Invoke ''B'' [],
                      Putch 0x43, Invoke ''C'' []]\<rparr>) = []
   \<and> feed [0x41, 0x0D, 0x42, 0x0D, 0x43, 0x0D]
       ((console [plain ''A'', plain ''B'', plain ''C''] 6 2)
          \<lparr>historyBuffer := (\<lambda>i. [])(- 1 := ''zz'')\<rparr>)
     = Inr ((console [plain ''A'', plain ''B'', plain ''C''] 6 2)
          \<lparr>historyBuffer := (\<lambda>i. [])(- 1 := ''zz'', 0 := ''B'', 1 := ''C''),
            historyCount := 2, whereInHistory := 1, showPrompt := True,
            trace := [Putch 0x41, Invoke ''A'' [], Putch 0x42, Invoke ''B'' [],
                      Putch 0x43, Invoke ''C'' []]\<rparr>)
   \<and> stored ((console [plain ''A'', plain ''B'', plain ''C''] 6 2)
          \<lparr>historyBuffer := (\<lambda>i. [])(- 1 := ''zz'', 0 := ''B'', 1 := ''C''),
            historyCount := 2, whereInHistory := 1, showPrompt := True,
            trace := [Putch 0x41, Invoke ''A'' [], Putch 0x42, Invoke ''B'' [],
                      Putch 0x43, Invoke ''C'' []]\<rparr>) = [''B'', ''C'']"
proof -
  define s0 where "s0 = console [plain ''A'', plain ''B'', plain ''C''] 6 2"
  have fields: "head s0 = [plain ''A'', plain ''B'', plain ''C'']" "\<not> caseinsensitive s0"
    "bufferSize s0 = 6" "historyDepth s0 = 2" "trace s0 = []" "historyCount s0 = 0"
    "whereInHistory s0 = 0" "keycount s0 = 0" "buffer s0 = []" "historyBuffer s0 = (\<lambda>i. [])"
    "\<not> showSignOnBanner s0" "\<not> echo s0" "\<not> leadinChar s0" "port s0"
    by (simp_all add: s0_def console_def at_start_def)
  have o: "ord CHR ''A'' = 0x41" "ord CHR ''B'' = 0x42" "ord CHR ''C'' = 0x43"
    by (simp_all add: ord_def)

  define a1 where "a1 = s0\<lparr>showPrompt := True, trace := [Putch 0x41, Invoke ''A'' []]\<rparr>"
  define a2 where "a2 = s0\<lparr>showPrompt := True,
      trace := [Putch 0x41, Invoke ''A'' [], Putch 0x42, Invoke ''B'' []]\<rparr>"
  define a3 where "a3 = s0\<lparr>showPrompt := True,
      trace := [Putch 0x41, Invoke ''A'' [], Putch 0x42, Invoke ''B'' [],
                Putch 0x43, Invoke ''C'' []]\<rparr>"
  have ea: "enter_history (s\<lparr>buffer := [ch], keycount := 1, trace := t\<rparr>)
      = Inr (s\<lparr>buffer := [ch], keycount := 1, trace := t\<rparr>)"
    if "historyCount s = 0" "historyBuffer s (- 1) = []" for s ch t
    by (rule enter_history_repeat) (simp add: that mystrnicmp_def)
  have fa1: "feed [0x41, 0x0D] s0 = Inr a1"
    using letter_and_return [where s = s0 and ch = "CHR ''A''", OF fields(1,2,3,11,12,13,14,9,8) _
        ea [where s = s0]]
    by (simp add: fields o) (simp add: a1_def s0_def console_def at_start_def)
  have fa2: "feed [0x42, 0x0D] a1 = Inr a2"
    using letter_and_return [where s = a1 and ch = "CHR ''B''", OF _ _ _ _ _ _ _ _ _ _
        ea [where s = a1]]
    by (simp add: a1_def fields o) (simp add: a1_def a2_def s0_def console_def at_start_def)
  have fa3: "feed [0x43, 0x0D] a2 = Inr a3"
    using letter_and_return [where s = a2 and ch = "CHR ''C''", OF _ _ _ _ _ _ _ _ _ _
        ea [where s = a2]]
    by (simp add: a2_def fields o) (simp add: a2_def a3_def s0_def console_def at_start_def)
  have app: "feed (xs @ ys) s = (case feed xs s of Inl e \<Rightarrow> Inl e | Inr s1 \<Rightarrow> feed ys s1)"
    for xs ys s
    by (induction xs arbitrary: s) (auto split: sum.splits)
  have fa: "feed [0x41, 0x0D, 0x42, 0x0D, 0x43, 0x0D] s0 = Inr a3"
    using app [of "[0x41, 0x0D]" "[0x42, 0x0D, 0x43, 0x0D]" s0]
      app [of "[0x42, 0x0D]" "[0x43, 0x0D]" a1] fa1 fa2 fa3
    by simp
  have sa: "historyCount a3 = 0" "stored a3 = []"
    by (simp_all add: a3_def fields stored_def)

  define z0 where "z0 = s0\<lparr>historyBuffer := (\<lambda>i. [])(- 1 := ''zz'')\<rparr>"
  define z1 where "z1 = s0\<lparr>historyBuffer := (\<lambda>i. [])(- 1 := ''zz'', 0 := ''A''),
      historyCount := 1, whereInHistory := 0, showPrompt := True,
      trace := [Putch 0x41, Invoke ''A'' []]\<rparr>"
  define z2 where "z2 = s0\<lparr>historyBuffer := (\<lambda>i. [])(- 1 := ''zz'', 0 := ''A'', 1 := ''B''),
      historyCount := 2, whereInHistory := 1, showPrompt := True,
      trace := [Putch 0x41, Invoke ''A'' [], Putch 0x42, Invoke ''B'' []]\<rparr>"
  define z3 where "z3 = s0\<lparr>historyBuffer := (\<lambda>i. [])(- 1 := ''zz'', 0 := ''B'', 1 := ''C''),
      historyCount := 2, whereInHistory := 1, showPrompt := True,
      trace := [Putch 0x41, Invoke ''A'' [], Putch 0x42, Invoke ''B'' [],
                Putch 0x43, Invoke ''C'' []]\<rparr>"
  have e1: "enter_history (z0\<lparr>buffer := ''A'', keycount := 1,
          trace := trace z0 @ [Putch (ord CHR ''A''), Invoke ''A'' []]\<rparr>)
      = Inr (z1\<lparr>buffer := ''A'', keycount := 1, showPrompt := showPrompt s0\<rparr>)"
    by (simp add: enter_history_def strcpy_history_def history_bytes_def z0_def z1_def fields
        cmp_eval)
  have fz1: "feed [0x41, 0x0D] z0 = Inr z1"
    using letter_and_return [where s = z0 and ch = "CHR ''A''", OF _ _ _ _ _ _ _ _ _ _ e1]
    by (simp add: z0_def z1_def fields o)
  have e2: "enter_history (z1\<lparr>buffer := ''B'', keycount := 1,
          trace := trace z1 @ [Putch (ord CHR ''B''), Invoke ''B'' []]\<rparr>)
      = Inr (z2\<lparr>buffer := ''B'', keycount := 1\<rparr>)"
    by (simp add: enter_history_def strcpy_history_def history_bytes_def z1_def z2_def fields
        cmp_eval)
  have fz2: "feed [0x42, 0x0D] z1 = Inr z2"
    using letter_and_return [where s = z1 and ch = "CHR ''B''", OF _ _ _ _ _ _ _ _ _ _ e2]
    by (simp add: z1_def z2_def fields o)
  have h3: "(\<lambda>i. [])(- 1 := ''zz'', 0 := ''A'', 1 := ''B'', 0 := ''B'', 1 := ''C'')
      = (\<lambda>i :: int. [])(- 1 := ''zz'', 0 := ''B'', 1 := ''C'')"
    by (auto simp add: fun_eq_iff)
  have e3: "enter_history (z2\<lparr>buffer := ''C'', keycount := 1,
          trace := trace z2 @ [Putch (ord CHR ''C''), Invoke ''C'' []]\<rparr>)
      = Inr (z3\<lparr>buffer := ''C'', keycount := 1\<rparr>)"
    by (simp add: enter_history_def strcpy_history_def history_bytes_def z2_def z3_def fields
        cmp_eval upto.simps h3)
  have fz3: "feed [0x43, 0x0D] z2 = Inr z3"
    using letter_and_return [where s = z2 and ch = "CHR ''C''", OF _ _ _ _ _ _ _ _ _ _ e3]
    by (simp add: z2_def z3_def fields o)
  have fz: "feed [0x41, 0x0D, 0x42, 0x0D, 0x43, 0x0D] z0 = Inr z3"
    using app [of "[0x41, 0x0D]" "[0x42, 0x0D, 0x43, 0x0D]" z0]
      app [of "[0x42, 0x0D]" "[0x43, 0x0D]" z1] fz1 fz2 fz3
    by simp
  have sz: "stored z3 = [''B'', ''C'']"
    by (simp add: z3_def stored_def upto_0_1)
  show ?thesis
    using fa sa fz sz unfolding a3_def z0_def z3_def s0_def by blast
qed

section \<open>Add without storage, and the navigation index\<close>

text \<open>
  Claim C9: when Add cannot obtain storage for the link it returns the failure code and
  leaves everything else unchanged, the registry and the tracked longest-name length
  included. The length is in fact updated before the allocation is attempted. Amended: a
  failed Add returns the failure code and leaves every variable as it was, the registry
  included, except that the tracked longest-name length has been raised to the length of
  the rejected name when that is longer.
\<close>

theorem Add_failure_raises_longestCommand:
  "CommandProcessor_Add menu False s
     = (addfailed, s\<lparr>longestCommand := max (longestCommand s) (length (command menu))\<rparr>)"
  by (simp add: CommandProcessor_Add_def max_def)

text \<open>
  A failed Add of the name \<open>Status\<close> to a new processor leaves the tracked length at six,
  where it was zero.
\<close>

theorem failed_Add_changes_longestCommand:
  "CommandProcessor_Add (plain ''Status'') False at_start
     = (addfailed, at_start\<lparr>longestCommand := 6\<rparr>)
   \<and> longestCommand at_start = 0"
  by (simp add: CommandProcessor_Add_def at_start_def plain_def)

text \<open>
  Claim C7: after a submit that appends a line to the history the navigation index equals
  the history count, so that one up arrow recalls the line just submitted. The code sets
  \<open>whereInHistory = historyCount\<close> before it increments \<open>historyCount\<close>, which leaves the
  index one below the count, on the entry just written; the up arrow decrements first and
  recalls the entry before it. With \<open>A\<close> stored, the bytes \<open>B\<close> and CR append \<open>B\<close> and leave
  the index at \<open>1\<close> with a count of \<open>2\<close>; the bytes \<open>[\<close> and \<open>A\<close> (an up arrow) then load \<open>A\<close>
  into the line buffer, not \<open>B\<close>.
\<close>

theorem up_arrow_after_submit_recalls_the_line_before:
  "feed [0x42, 0x0D]
       ((console [plain ''A'', plain ''B''] 6 2)
          \<lparr>historyBuffer := (\<lambda>i. [])(0 := ''A''), historyCount := 1\<rparr>)
     = Inr ((console [plain ''A'', plain ''B''] 6 2)
          \<lparr>historyBuffer := (\<lambda>i. [])(0 := ''A'', 1 := ''B''), historyCount := 2,
            whereInHistory := 1, showPrompt := True,
            trace := [Putch 0x42, Invoke ''B'' []]\<rparr>)
   \<and> feed [0x5B, 0x41]
       ((console [plain ''A'', plain ''B''] 6 2)
          \<lparr>historyBuffer := (\<lambda>i. [])(0 := ''A'', 1 := ''B''), historyCount := 2,
            whereInHistory := 1, showPrompt := True,
            trace := [Putch 0x42, Invoke ''B'' []]\<rparr>)
     = Inr ((console [plain ''A'', plain ''B''] 6 2)
          \<lparr>historyBuffer := (\<lambda>i. [])(0 := ''A'', 1 := ''B''), historyCount := 2,
            whereInHistory := 0, showPrompt := True, buffer := ''A'', keycount := 1,
            trace := [Putch 0x42, Invoke ''B'' [], Putch 0x41]\<rparr>)"
proof -
  define s0 where "s0 = console [plain ''A'', plain ''B''] 6 2"
  define h1 where "h1 = s0\<lparr>historyBuffer := (\<lambda>i. [])(0 := ''A''), historyCount := 1\<rparr>"
  define h2 where "h2 = h1\<lparr>buffer := ''B'', keycount := 1, trace := [Putch 0x42]\<rparr>"
  define h3 where "h3 = s0\<lparr>historyBuffer := (\<lambda>i. [])(0 := ''A'', 1 := ''B''), historyCount := 2,
            whereInHistory := 1, showPrompt := True, trace := [Putch 0x42, Invoke ''B'' []]\<rparr>"
  define h4 where "h4 = h3\<lparr>leadinChar := True\<rparr>"
  define h5 where "h5 = h3\<lparr>whereInHistory := 0, buffer := ''A'', keycount := 1,
      trace := [Putch 0x42, Invoke ''B'' [], Putch 0x41]\<rparr>"
  have fields: "head s0 = [plain ''A'', plain ''B'']" "\<not> caseinsensitive s0"
    "bufferSize s0 = 6" "historyDepth s0 = 2" "trace s0 = []" "historyCount s0 = 0"
    "whereInHistory s0 = 0" "keycount s0 = 0" "buffer s0 = []"
    "\<not> showSignOnBanner s0" "\<not> echo s0" "\<not> leadinChar s0" "port s0"
    by (simp_all add: s0_def console_def at_start_def)
  have q1: "\<not> showSignOnBanner h1" "\<not> echo h1" "\<not> leadinChar h1" "port h1"
    by (simp_all add: h1_def fields)
  have t1: "CommandProcessor_Run (Some 0x42) True h1 = Inr (runok, h2)"
  proof -
    have c: "char_of (0x42 :: int) = CHR ''B''"
      using char_of_ord [of "CHR ''B''"] by (simp add: ord_def)
    have "line_matches h1 (buffer h1 @ [CHR ''B''])"
      by (simp add: line_matches_def h1_def fields typed_name_def agrees_def plain_def)
    moreover have "myisprint 0x42" "keycount h1 = length (buffer h1)"
      "int (length (buffer h1)) + 2 \<le> bufferSize h1" "cstring (buffer h1)"
      by (simp_all add: myisprint_def ord_def h1_def fields cstring_def)
    ultimately show ?thesis
      using Run_printable [OF q1(1,2,3), of "0x42" True] q1(4)
      by (simp add: c) (simp add: h1_def h2_def fields)
  qed
  have q2: "\<not> showSignOnBanner h2" "\<not> echo h2" "\<not> leadinChar h2" "port h2"
    by (simp_all add: h2_def h1_def fields)
  have t2: "CommandProcessor_Run (Some 0x0D) True h2 = Inr (runok, h3)"
  proof -
    have cs: "cstring (buffer h2)" "buffer h2 \<noteq> []"
      by (simp_all add: h2_def cstring_def NUL_def)
    have hits: "filter (\<lambda>link. agrees (caseinsensitive h2) (typed_name (buffer h2)) (command link))
        (head h2) = [plain ''B'']"
      by (simp add: h2_def h1_def fields typed_name_def agrees_def plain_def)
    have ex: "typed_name (buffer h2) = command (plain ''B'')"
      "callback (plain ''B'') = host (\<lambda>p. runok)"
      by (simp_all add: h2_def typed_name_def plain_def)
    have eh: "enter_history (h2\<lparr>trace := trace h2 @ [Invoke (command (plain ''B''))
          (argument_of (buffer h2))]\<rparr>)
        = Inr (h3\<lparr>buffer := ''B'', keycount := 1, showPrompt := showPrompt s0\<rparr>)"
      by (simp add: enter_history_def strcpy_history_def history_bytes_def h2_def h1_def h3_def
          fields cmp_eval plain_def argument_of_def)
    have "ProcessStandardSequence 0x0D True h2 = Inr (runok, h3)"
      using submit_exact_host_run [OF cs hits ex eh, of True]
      by (simp add: h3_def fields)
    then show ?thesis using q2(3)
      by (simp add: Run_quiet [OF q2(1,2,4)])
  qed
  have q3: "\<not> showSignOnBanner h3" "\<not> echo h3" "\<not> leadinChar h3" "port h3"
    by (simp_all add: h3_def fields)
  have t3: "CommandProcessor_Run (Some 0x5B) True h3 = Inr (runok, h4)"
    using q3(3) by (simp add: Run_quiet [OF q3(1,2,4)] ProcessStandardSequence_def h4_def)
  have q4: "\<not> showSignOnBanner h4" "\<not> echo h4" "leadinChar h4" "port h4"
    by (simp_all add: h4_def h3_def fields)
  have pc: "ProcessComplexSequence 0x41 h4 = Inr (0, h5)"
    by (simp add: ProcessComplexSequence_def strcpy_buffer_def EchoString_trace EraseChars_trace
        h4_def h3_def h5_def fields ord_def)
  have t4: "CommandProcessor_Run (Some 0x41) True h4 = Inr (runok, h5)"
    using q4(3) by (simp add: Run_quiet [OF q4(1,2,4)] pc ProcessStandardSequence_def)
  have "feed [0x42, 0x0D] h1 = Inr h3" using t1 t2 by simp
  moreover have "feed [0x5B, 0x41] h3 = Inr h5" using t3 t4 by simp
  ultimately show ?thesis
    by (simp add: h1_def h3_def h5_def s0_def)
qed

section \<open>Canonicalization\<close>

subsection \<open>The corrected line\<close>

lemma typed_name_append_space:
  "typed_name (name @ CHR '' '' # rest) = typed_name name"
  unfolding typed_name_def
  by (induction name) auto

lemma argument_of_canonical:
  "CHR '' '' \<notin> set name \<Longrightarrow> argument_of (name @ CHR '' '' # rest) = rest"
  unfolding argument_of_def
  by (induction name) auto

lemma typed_name_no_space: "CHR '' '' \<notin> set name \<Longrightarrow> typed_name name = name"
  unfolding typed_name_def by (rule takeWhile_absent)

lemma dropWhile_space_cases:
  obtains "dropWhile (\<lambda>c. c \<noteq> CHR '' '') buf = []"
        | rest where "dropWhile (\<lambda>c. c \<noteq> CHR '' '') buf = CHR '' '' # rest"
proof (cases "dropWhile (\<lambda>c. c \<noteq> CHR '' '') buf")
  case Nil
  then show ?thesis by (rule that(1))
next
  case (Cons c rest)
  then have "c = CHR '' ''" using hd_dropWhile [of "\<lambda>c. c \<noteq> CHR '' ''" buf] by auto
  with Cons show ?thesis by (simp only: that(2))
qed

lemma typed_name_full:
  assumes "CHR '' '' \<notin> set name"
  shows "typed_name (name @ dropWhile (\<lambda>c. c \<noteq> CHR '' '') buf) = name"
proof (cases buf rule: dropWhile_space_cases)
  case 1
  show ?thesis unfolding 1 using assms by (simp add: typed_name_no_space)
next
  case (2 rest)
  show ?thesis unfolding 2 using assms
    by (simp add: typed_name_append_space typed_name_no_space)
qed

lemma argument_of_full:
  assumes "CHR '' '' \<notin> set name"
  shows "argument_of (name @ dropWhile (\<lambda>c. c \<noteq> CHR '' '') buf) = argument_of buf"
proof (cases buf rule: dropWhile_space_cases)
  case 1
  have "argument_of buf = []" unfolding argument_of_def 1 by simp
  moreover have "argument_of (name @ []) = []"
    using assms by (simp add: argument_of_def dropWhile_absent)
  ultimately show ?thesis unfolding 1 by simp
next
  case (2 rest)
  have "argument_of buf = rest" unfolding argument_of_def 2 by simp
  then show ?thesis unfolding 2 using argument_of_canonical [OF assms, of rest] by simp
qed

lemma agrees_self: "agrees ci name name"
  by (simp add: agrees_def)

lemma agrees_trans_full:
  assumes "agrees ci name other" "agrees ci typed name"
  shows "agrees ci typed other"
proof (cases ci)
  case True
  from assms True have a: "map mytolower name = map mytolower (take (length name) other)"
    and b: "map mytolower typed = map mytolower (take (length typed) name)"
    by (simp_all add: agrees_def)
  have le: "length typed \<le> length name" using assms(2) by (rule agrees_length)
  have "map mytolower (take (length typed) name) = take (length typed) (map mytolower name)"
    by (simp add: take_map)
  also have "\<dots> = take (length typed) (map mytolower (take (length name) other))"
    using a by simp
  also have "\<dots> = map mytolower (take (length typed) other)"
    using le by (simp add: take_map min_absorb1)
  finally show ?thesis using b True by (simp add: agrees_def)
next
  case False
  from assms False have a: "name = take (length name) other"
    and b: "typed = take (length typed) name"
    by (simp_all add: agrees_def)
  have le: "length typed \<le> length name" using assms(2) by (rule agrees_length)
  have "take (length typed) name = take (length typed) (take (length name) other)"
    using a by simp
  also have "\<dots> = take (length typed) other" using le by (simp add: min_absorb1)
  finally show ?thesis using b False by (simp add: agrees_def)
qed

text \<open>When a typed name singles out a command, so does the command's full name.\<close>

lemma full_name_singles_out:
  assumes "filter (\<lambda>link. agrees ci typed (command link)) links = [m]"
  shows "filter (\<lambda>link. agrees ci (command m) (command link)) links = [m]"
proof -
  have "m \<in> set (filter (\<lambda>link. agrees ci typed (command link)) links)" using assms by simp
  then have tm: "agrees ci typed (command m)" by simp
  have "filter (\<lambda>link. agrees ci (command m) (command link)) links
      = filter (\<lambda>link. agrees ci (command m) (command link))
          (filter (\<lambda>link. agrees ci typed (command link)) links)"
    using agrees_trans_full [OF _ tm] by (auto intro: filter_cong)
  then show ?thesis using assms by (simp add: agrees_self)
qed

lemma enter_history_bufferSize:
  "enter_history s = Inr s' \<Longrightarrow> bufferSize s' = bufferSize s"
  using enter_history_result [of s s'] by auto

lemma call_callback_bufferSize:
  "call_callback m p s = Inr (val, s') \<Longrightarrow> bufferSize s' = bufferSize s"
proof -
  assume "call_callback m p s = Inr (val, s')"
  from call_callback_frame [OF this] obtain t e where "s' = s\<lparr>trace := t, echo := e\<rparr>" by blast
  then show ?thesis by simp
qed

lemma on_enter_one:
  assumes "buffer s \<noteq> []" "CommandMatches True got s = Inr (1, Some m, Some p, s1)"
    and "0 < bufferSize s1"
  shows "on_enter got s =
     (case call_callback m p s1 of
        Inl e \<Rightarrow> Inl e
      | Inr (val, s2) \<Rightarrow>
          (case enter_history s2 of
             Inl e \<Rightarrow> Inl e
           | Inr s3 \<Rightarrow> Inr (val, s3\<lparr>keycount := 0, buffer := [], showPrompt := True\<rparr>)))"
proof (cases "call_callback m p s1")
  case (Inl e)
  then show ?thesis using assms(1,2) by (simp add: on_enter_def)
next
  case (Inr vs)
  obtain val s2 where vs: "vs = (val, s2)" by (cases vs)
  have b2: "bufferSize s2 = bufferSize s1"
    using call_callback_bufferSize [of m p s1 val s2] Inr vs by simp
  show ?thesis
  proof (cases "enter_history s2")
    case (Inl e)
    then show ?thesis using assms(1,2) Inr vs by (simp add: on_enter_def)
  next
    case eh: (Inr s3)
    have "0 < bufferSize s3" using enter_history_bufferSize [OF eh] b2 assms(3) by simp
    then show ?thesis
      using on_enter_exec [OF assms(1,2) _ eh, of val] Inr vs eh by simp
  qed
qed

text \<open>
  Claim C6: on every submit with exactly one match whose name differs from the typed
  prefix by length or case, the line buffer is rewritten to the canonical name, a space and
  the original argument text, the corrected text is echoed after the typed characters
  have been erased, and the callback receives the same argument as if the full name had
  been typed.

  As stated the claim fails for a command name that contains a space: the argument is
  taken again from the rewritten line, behind its first space, so the callback receives
  the rest of the name as well (the example that follows the witness). Amended: the claim
  holds for names without a space, provided storage for the temporary copy is obtained and
  the corrected line and its NUL fit the buffer (the code checks neither).

  First conjunct: \<open>CommandMatches\<close> returns the match, the original argument, and a state
  whose line is the canonical name, a space and the original argument, with the erase
  sequence for every typed character and then the corrected line appended to the trace.
  Second conjunct: the submit calls the callback with the original argument in that state.
  Third conjunct: the line with the name typed in full yields the same match and the same
  argument, and is not rewritten.
\<close>

theorem unique_prefix_is_rewritten_to_the_full_name:
  assumes "cstring (buffer s)" "buffer s \<noteq> []"
    and "filter (\<lambda>link. agrees (caseinsensitive s) (typed_name (buffer s)) (command link)) (head s) = [m]"
    and "typed_name (buffer s) \<noteq> command m"
    and "cstring (command m)" "CHR '' '' \<notin> set (command m)"
    and "got"
    and "int (length (command m @ '' '' @ argument_of (buffer s))) + 1 \<le> bufferSize s"
  shows "CommandMatches True got s =
       Inr (1, Some m, Some (argument_of (buffer s)),
            s\<lparr>buffer := command m @ '' '' @ argument_of (buffer s),
              trace := trace s
                @ concat (replicate (length (buffer s)) [Putch 0x08, Putch 0x20, Putch 0x08])
                @ map (\<lambda>c. Putch (ord c)) (command m @ '' '' @ argument_of (buffer s))\<rparr>)
   \<and> ProcessStandardSequence 0x0D got s =
       (case call_callback m (argument_of (buffer s))
               (s\<lparr>buffer := command m @ '' '' @ argument_of (buffer s),
                  trace := trace s
                    @ concat (replicate (length (buffer s)) [Putch 0x08, Putch 0x20, Putch 0x08])
                    @ map (\<lambda>c. Putch (ord c)) (command m @ '' '' @ argument_of (buffer s))\<rparr>) of
          Inl e \<Rightarrow> Inl e
        | Inr (val, s2) \<Rightarrow>
            (case enter_history s2 of
               Inl e \<Rightarrow> Inl e
             | Inr s3 \<Rightarrow> Inr (val, s3\<lparr>keycount := 0, buffer := [], showPrompt := True\<rparr>)))
   \<and> CommandMatches True got
         (s\<lparr>buffer := command m @ dropWhile (\<lambda>c. c \<noteq> CHR '' '') (buffer s)\<rparr>) =
       Inr (1, Some m, Some (argument_of (buffer s)),
            s\<lparr>buffer := command m @ dropWhile (\<lambda>c. c \<noteq> CHR '' '') (buffer s)\<rparr>)"
proof -
  define line where "line = command m @ '' '' @ argument_of (buffer s)"
  define s1 where "s1 = s\<lparr>buffer := line,
              trace := trace s
                @ concat (replicate (length (buffer s)) [Putch 0x08, Putch 0x20, Putch 0x08])
                @ map (\<lambda>c. Putch (ord c)) line\<rparr>"
  have al: "argument_of line = argument_of (buffer s)"
    using argument_of_canonical [OF assms(6)] by (simp add: line_def)
  have cm: "CommandMatches True got s = Inr (1, Some m, Some (argument_of (buffer s)), s1)"
    using CommandMatches_one [OF assms(1,2,3), of got] assms(4,7,8) al
    by (simp add: line_def s1_def)
  have bs: "0 < bufferSize s1" using assms(8) by (simp add: s1_def)
  have oe: "ProcessStandardSequence 0x0D got s =
       (case call_callback m (argument_of (buffer s)) s1 of
          Inl e \<Rightarrow> Inl e
        | Inr (val, s2) \<Rightarrow>
            (case enter_history s2 of
               Inl e \<Rightarrow> Inl e
             | Inr s3 \<Rightarrow> Inr (val, s3\<lparr>keycount := 0, buffer := [], showPrompt := True\<rparr>)))"
    using on_enter_one [OF assms(2) cm bs] by (simp add: ProcessStandardSequence_enter)
  define full where "full = command m @ dropWhile (\<lambda>c. c \<noteq> CHR '' '') (buffer s)"
  define sf where "sf = s\<lparr>buffer := full\<rparr>"
  have "set (dropWhile (\<lambda>c. c \<noteq> CHR '' '') (buffer s)) \<subseteq> set (buffer s)"
    by (auto dest: set_dropWhileD)
  then have csf: "cstring (buffer sf)"
    using assms(1,5) by (auto simp add: sf_def full_def cstring_def)
  have nef: "buffer sf \<noteq> []"
  proof
    assume "buffer sf = []"
    then have "command m = []" "dropWhile (\<lambda>c. c \<noteq> CHR '' '') (buffer s) = []"
      by (simp_all add: sf_def full_def)
    then have "typed_name (buffer s) = buffer s"
      by (simp add: typed_name_def takeWhile_eq_all_conv dropWhile_eq_Nil_conv)
    moreover have "agrees (caseinsensitive s) (typed_name (buffer s)) (command m)"
    proof -
      have "m \<in> set (filter (\<lambda>link. agrees (caseinsensitive s) (typed_name (buffer s))
          (command link)) (head s))" using assms(3) by simp
      then show ?thesis by simp
    qed
    ultimately have "length (buffer s) \<le> 0"
      using agrees_length [of "caseinsensitive s" "typed_name (buffer s)" "command m"]
        \<open>command m = []\<close> by simp
    with assms(2) show False by simp
  qed
  have tf: "typed_name (buffer sf) = command m" "argument_of (buffer sf) = argument_of (buffer s)"
    using typed_name_full [OF assms(6)] argument_of_full [OF assms(6)]
    by (simp_all add: sf_def full_def)
  have hf: "filter (\<lambda>link. agrees (caseinsensitive sf) (typed_name (buffer sf)) (command link)) (head sf)
      = [m]"
    using full_name_singles_out [OF assms(3)] tf by (simp add: sf_def)
  have cf: "CommandMatches True got sf = Inr (1, Some m, Some (argument_of (buffer s)), sf)"
    using CommandMatches_one [OF csf nef hf, of got] tf by simp
  show ?thesis
    using cm oe cf unfolding s1_def line_def sf_def full_def by simp
qed

theorem unique_prefix_is_rewritten_to_the_full_name_witness:
  "filter (\<lambda>link. agrees (caseinsensitive ((console [plain ''Help''] 80 5)\<lparr>buffer := ''He 12'', keycount := 5\<rparr>))
              (typed_name (buffer ((console [plain ''Help''] 80 5)\<lparr>buffer := ''He 12'', keycount := 5\<rparr>)))
              (command link))
      (head ((console [plain ''Help''] 80 5)\<lparr>buffer := ''He 12'', keycount := 5\<rparr>)) = [plain ''Help'']
   \<and> typed_name (buffer ((console [plain ''Help''] 80 5)\<lparr>buffer := ''He 12'', keycount := 5\<rparr>)) = ''He''
   \<and> argument_of (buffer ((console [plain ''Help''] 80 5)\<lparr>buffer := ''He 12'', keycount := 5\<rparr>)) = ''12''
   \<and> CommandMatches True True ((console [plain ''Help''] 80 5)\<lparr>buffer := ''He 12'', keycount := 5\<rparr>)
       = Inr (1, Some (plain ''Help''), Some ''12'',
              (console [plain ''Help''] 80 5)
                \<lparr>buffer := ''Help 12'', keycount := 5,
                  trace := concat (replicate 5 [Putch 0x08, Putch 0x20, Putch 0x08])
                           @ map (\<lambda>c. Putch (ord c)) ''Help 12''\<rparr>)
   \<and> ProcessStandardSequence 0x0D True
         ((console [plain ''Help''] 80 5)\<lparr>buffer := ''He 12'', keycount := 5\<rparr>)
       = Inr (runok, (console [plain ''Help''] 80 5)
                \<lparr>showPrompt := True,
                  trace := concat (replicate 5 [Putch 0x08, Putch 0x20, Putch 0x08])
                           @ map (\<lambda>c. Putch (ord c)) ''Help 12'' @ [Invoke ''Help'' ''12'']\<rparr>)
   \<and> CommandMatches True True ((console [plain ''Help''] 80 5)\<lparr>buffer := ''Help 12'', keycount := 5\<rparr>)
       = Inr (1, Some (plain ''Help''), Some ''12'',
              (console [plain ''Help''] 80 5)\<lparr>buffer := ''Help 12'', keycount := 5\<rparr>)"
proof -
  define s0 where "s0 = console [plain ''Help''] 80 5"
  define s where "s = s0\<lparr>buffer := ''He 12'', keycount := 5\<rparr>"
  have fields: "head s0 = [plain ''Help'']" "\<not> caseinsensitive s0"
    "bufferSize s0 = 80" "historyDepth s0 = 5" "trace s0 = []" "historyCount s0 = 0"
    "historyBuffer s0 = (\<lambda>i. [])"
    by (simp_all add: s0_def console_def at_start_def)
  have tn: "typed_name (buffer s) = ''He''" "argument_of (buffer s) = ''12''"
    by (simp_all add: s_def typed_name_def argument_of_def)
  have cs: "cstring (buffer s)" "buffer s \<noteq> []" by (simp_all add: s_def cstring_def NUL_def)
  have hits: "filter (\<lambda>link. agrees (caseinsensitive s) (typed_name (buffer s)) (command link)) (head s)
      = [plain ''Help'']"
    by (simp add: tn) (simp add: s_def fields agrees_def plain_def)
  have d: "typed_name (buffer s) \<noteq> command (plain ''Help'')" by (simp add: tn plain_def)
  have n: "cstring (command (plain ''Help''))" "CHR '' '' \<notin> set (command (plain ''Help''))"
    by (simp_all add: plain_def cstring_def NUL_def)
  have fit: "int (length (command (plain ''Help'') @ '' '' @ argument_of (buffer s))) + 1 \<le> bufferSize s"
    by (simp add: plain_def s_def fields argument_of_def)
  note th = unique_prefix_is_rewritten_to_the_full_name [OF cs hits d n _ fit, of True]
  define s1 where "s1 = s\<lparr>buffer := ''Help 12'',
      trace := concat (replicate 5 [Putch 0x08, Putch 0x20, Putch 0x08])
                           @ map (\<lambda>c. Putch (ord c)) ''Help 12''\<rparr>"
  have s1: "s\<lparr>buffer := command (plain ''Help'') @ '' '' @ argument_of (buffer s),
            trace := trace s
              @ concat (replicate (length (buffer s)) [Putch 0x08, Putch 0x20, Putch 0x08])
              @ map (\<lambda>c. Putch (ord c)) (command (plain ''Help'') @ '' '' @ argument_of (buffer s))\<rparr>
      = s1"
    by (simp add: tn plain_def s1_def) (simp add: s_def fields eval_nat_numeral)
  have cb: "call_callback (plain ''Help'') ''12'' s1
      = Inr (runok, s1\<lparr>trace := trace s1 @ [Invoke ''Help'' ''12'']\<rparr>)"
    by (simp add: call_callback_def plain_def)
  have eh: "enter_history (s1\<lparr>trace := trace s1 @ [Invoke ''Help'' ''12'']\<rparr>)
      = Inr (s1\<lparr>trace := trace s1 @ [Invoke ''Help'' ''12'']\<rparr>)"
    by (rule enter_history_repeat) (simp add: s1_def s_def fields mystrnicmp_def)
  have full: "command (plain ''Help'') @ dropWhile (\<lambda>c. c \<noteq> CHR '' '') (buffer s) = ''Help 12''"
    by (simp add: plain_def s_def)
  have a: "CommandMatches True True s = Inr (1, Some (plain ''Help''), Some ''12'', s1)"
    using th s1 tn by simp
  have b: "ProcessStandardSequence 0x0D True s
      = Inr (runok, s1\<lparr>trace := trace s1 @ [Invoke ''Help'' ''12''],
                      keycount := 0, buffer := [], showPrompt := True\<rparr>)"
    using th s1 tn cb eh by simp
  have c: "CommandMatches True True (s\<lparr>buffer := ''Help 12''\<rparr>)
      = Inr (1, Some (plain ''Help''), Some ''12'', s\<lparr>buffer := ''Help 12''\<rparr>)"
    using th full tn by simp
  have g4: "CommandMatches True True s
       = Inr (1, Some (plain ''Help''), Some ''12'',
              s0\<lparr>buffer := ''Help 12'', keycount := 5,
                  trace := concat (replicate 5 [Putch 0x08, Putch 0x20, Putch 0x08])
                           @ map (\<lambda>c. Putch (ord c)) ''Help 12''\<rparr>)"
    using a by (simp add: s1_def s_def)
  have g5: "ProcessStandardSequence 0x0D True s
       = Inr (runok, s0
                \<lparr>showPrompt := True,
                  trace := concat (replicate 5 [Putch 0x08, Putch 0x20, Putch 0x08])
                           @ map (\<lambda>c. Putch (ord c)) ''Help 12'' @ [Invoke ''Help'' ''12'']\<rparr>)"
    using b by (simp add: s1_def s_def) (simp add: s0_def console_def at_start_def)
  have g6: "CommandMatches True True (s0\<lparr>buffer := ''Help 12'', keycount := 5\<rparr>)
       = Inr (1, Some (plain ''Help''), Some ''12'', s0\<lparr>buffer := ''Help 12'', keycount := 5\<rparr>)"
  proof -
    have "s\<lparr>buffer := ''Help 12''\<rparr> = s0\<lparr>buffer := ''Help 12'', keycount := 5\<rparr>"
      unfolding s_def by (rule processor.equality) simp_all
    then show ?thesis using c by simp
  qed
  show ?thesis
    using hits tn g4 g5 g6 unfolding s_def s0_def by blast
qed

text \<open>
  With the single command \<open>My Cmd\<close> registered, the line \<open>My x\<close> has the argument \<open>x\<close> and is
  rewritten to \<open>My Cmd x\<close>, and the callback's argument is \<open>Cmd x\<close>. Typing the name in full,
  \<open>My Cmd x\<close>, is rewritten once more, to \<open>My Cmd Cmd x\<close>, with the argument \<open>Cmd Cmd x\<close>.
\<close>

theorem name_with_a_space_changes_the_argument:
  "argument_of (buffer ((console [plain ''My Cmd''] 80 5)\<lparr>buffer := ''My x'', keycount := 4\<rparr>)) = ''x''
   \<and> CommandMatches True True ((console [plain ''My Cmd''] 80 5)\<lparr>buffer := ''My x'', keycount := 4\<rparr>)
       = Inr (1, Some (plain ''My Cmd''), Some ''Cmd x'',
              (console [plain ''My Cmd''] 80 5)
                \<lparr>buffer := ''My Cmd x'', keycount := 4,
                  trace := concat (replicate 4 [Putch 0x08, Putch 0x20, Putch 0x08])
                           @ map (\<lambda>c. Putch (ord c)) ''My Cmd x''\<rparr>)
   \<and> CommandMatches True True ((console [plain ''My Cmd''] 80 5)\<lparr>buffer := ''My Cmd x'', keycount := 8\<rparr>)
       = Inr (1, Some (plain ''My Cmd''), Some ''Cmd Cmd x'',
              (console [plain ''My Cmd''] 80 5)
                \<lparr>buffer := ''My Cmd Cmd x'', keycount := 8,
                  trace := concat (replicate 8 [Putch 0x08, Putch 0x20, Putch 0x08])
                           @ map (\<lambda>c. Putch (ord c)) ''My Cmd Cmd x''\<rparr>)"
proof -
  define s0 where "s0 = console [plain ''My Cmd''] 80 5"
  have fields: "head s0 = [plain ''My Cmd'']" "\<not> caseinsensitive s0"
    "bufferSize s0 = 80" "trace s0 = []"
    by (simp_all add: s0_def console_def at_start_def)
  have r: "CommandMatches True True (s0\<lparr>buffer := line, keycount := k\<rparr>)
      = Inr (1, Some (plain ''My Cmd''), Some (argument_of (''My Cmd '' @ argument_of line)),
             s0\<lparr>buffer := ''My Cmd '' @ argument_of line, keycount := k,
                trace := concat (replicate (length line) [Putch 0x08, Putch 0x20, Putch 0x08])
                         @ map (\<lambda>c. Putch (ord c)) (''My Cmd '' @ argument_of line)\<rparr>)"
    if "cstring line" "typed_name line = ''My''" "length line \<le> 8" for line k
  proof -
    have ne: "line \<noteq> []" using that(2) by (auto simp add: typed_name_def)
    have h: "filter (\<lambda>link. agrees (caseinsensitive (s0\<lparr>buffer := line, keycount := k\<rparr>))
        (typed_name (buffer (s0\<lparr>buffer := line, keycount := k\<rparr>))) (command link))
        (head (s0\<lparr>buffer := line, keycount := k\<rparr>)) = [plain ''My Cmd'']"
      using that(2) by (simp add: fields agrees_def plain_def)
    have "length (argument_of line) \<le> length line"
      unfolding argument_of_def
      by (metis (no_types, lifting) diff_le_self dual_order.trans length_dropWhile_le length_tl)
    then have fit: "int (length (argument_of line)) \<le> 8" using that(3) by linarith
    show ?thesis
      using CommandMatches_one [where s = "s0\<lparr>buffer := line, keycount := k\<rparr>"
          and m = "plain ''My Cmd''" and got = True, OF _ _ h] that(1,2) ne fit
      by (simp add: plain_def fields)
  qed
  have a: "argument_of ''My x'' = ''x''" "argument_of ''My Cmd x'' = ''Cmd x''"
    "argument_of ''My Cmd Cmd x'' = ''Cmd Cmd x''"
    "typed_name ''My x'' = ''My''" "typed_name ''My Cmd x'' = ''My''"
    "cstring ''My x''" "cstring ''My Cmd x''"
    by (simp_all add: argument_of_def typed_name_def cstring_def NUL_def)
  show ?thesis
    using r [of "''My x''" 4] r [of "''My Cmd x''" 8] a
    by (simp add: s0_def eval_nat_numeral)
qed

section \<open>The line buffer between two calls of Run\<close>

subsection \<open>Lines that match the registry\<close>

lemma line_matches_frame:
  "head s' = head s \<Longrightarrow> caseinsensitive s' = caseinsensitive s \<Longrightarrow>
   line_matches s' buf = line_matches s buf"
  by (simp add: line_matches_def)

lemma editor_inv_frame:
  assumes "keycount s' = keycount s" "buffer s' = buffer s" "head s' = head s"
    and "caseinsensitive s' = caseinsensitive s" "whereInHistory s' = whereInHistory s"
    and "historyCount s' = historyCount s" "historyBuffer s' = historyBuffer s"
  shows "editor_inv s' = editor_inv s"
  using assms by (simp add: editor_inv_def stored_def line_matches_def)

lemma takeWhile_take: "takeWhile P (take j xs) = take j (takeWhile P xs)"
proof (induction xs arbitrary: j)
  case Nil
  then show ?case by simp
next
  case (Cons x xs)
  then show ?case by (cases j) auto
qed

lemma typed_name_take: "typed_name (take j buf) = take j (typed_name buf)"
  unfolding typed_name_def by (rule takeWhile_take)

lemma agrees_take:
  assumes "agrees ci typed name"
  shows "agrees ci (take j typed) name"
proof (cases ci)
  case True
  with assms have a: "map mytolower typed = map mytolower (take (length typed) name)"
    by (simp add: agrees_def)
  have "map mytolower (take j typed) = take j (map mytolower typed)" by (simp add: take_map)
  also have "\<dots> = take j (map mytolower (take (length typed) name))" using a by simp
  also have "\<dots> = map mytolower (take (min j (length typed)) name)"
    by (simp add: take_map min.commute)
  finally show ?thesis using True by (simp add: agrees_def min.commute)
next
  case False
  with assms have a: "typed = take (length typed) name" by (simp add: agrees_def)
  have le: "length typed \<le> length name" using assms by (rule agrees_length)
  have "take j typed = take j (take (length typed) name)" using a by simp
  also have "\<dots> = take (min j (length typed)) name" by (simp add: min.commute)
  finally have "take j typed = take (min j (length typed)) name" .
  moreover have "length (take j typed) = min j (length typed)" by (simp add: min.commute)
  ultimately show ?thesis using False by (simp only: agrees_def if_False)
qed

lemma line_matches_take:
  assumes "line_matches s buf"
  shows "line_matches s (take j buf)"
proof (cases "take j buf = []")
  case True
  then show ?thesis by (simp add: line_matches_def)
next
  case False
  then have "buf \<noteq> []" by auto
  with assms obtain link where l: "link \<in> set (head s)"
    and a: "agrees (caseinsensitive s) (typed_name buf) (command link)"
    by (auto simp add: line_matches_def list_ex_iff)
  have "agrees (caseinsensitive s) (typed_name (take j buf)) (command link)"
    unfolding typed_name_take using a by (rule agrees_take)
  with l show ?thesis by (auto simp add: line_matches_def list_ex_iff)
qed

lemma agrees_typed_name_self: "agrees ci (typed_name name) name"
proof -
  have "take (length (typed_name name)) name = typed_name name" by (rule take_typed)
  then show ?thesis by (simp add: agrees_def)
qed

lemma line_matches_canonical:
  assumes "link \<in> set (head s)"
  shows "line_matches s (command link @ '' '' @ args)"
proof -
  have "typed_name (command link @ '' '' @ args) = typed_name (command link)"
    using typed_name_append_space [of "command link" args] by simp
  then have "agrees (caseinsensitive s) (typed_name (command link @ '' '' @ args)) (command link)"
    using agrees_typed_name_self by simp
  with assms show ?thesis by (auto simp add: line_matches_def list_ex_iff)
qed

lemma agrees_completed:
  assumes "agrees ci (typed_name buf) name" "length buf \<le> length name"
  shows "agrees ci (typed_name (buf @ drop (length buf) name)) name"
proof (cases "CHR '' '' \<in> set buf")
  case True
  then have "typed_name (buf @ drop (length buf) name) = typed_name buf"
    unfolding typed_name_def by (simp add: takeWhile_append1 [of "CHR '' ''"])
  with assms(1) show ?thesis by simp
next
  case False
  define n where "n = length buf"
  define tw where "tw = typed_name (drop n name)"
  have tb: "typed_name buf = buf" using False by (simp add: typed_name_def takeWhile_absent)
  have "takeWhile (\<lambda>c. c \<noteq> CHR '' '') (buf @ rest) = buf @ takeWhile (\<lambda>c. c \<noteq> CHR '' '') rest"
    for rest using False by (induction buf) auto
  then have tc: "typed_name (buf @ drop n name) = buf @ tw"
    unfolding typed_name_def tw_def by simp
  have tw: "take (length tw) (drop n name) = tw" unfolding tw_def by (rule take_typed)
  have tk: "take (length (buf @ tw)) name = take n name @ tw"
    using tw by (simp add: n_def take_add)
  have "agrees ci (buf @ tw) name"
  proof (cases ci)
    case True
    with assms(1) tb have "map mytolower buf = map mytolower (take n name)"
      by (simp add: agrees_def n_def)
    then have "map mytolower (buf @ tw) = map mytolower (take (length (buf @ tw)) name)"
      unfolding tk by simp
    then show ?thesis using True by (simp only: agrees_def if_True)
  next
    case f: False
    with assms(1) tb have e: "buf = take n name" by (simp add: agrees_def n_def)
    have "buf @ tw = take (length (buf @ tw)) name"
      unfolding tk by (subst e) simp
    then show ?thesis using f by (simp only: agrees_def if_False)
  qed
  then show ?thesis using tc by (simp add: n_def)
qed

lemma stored_entry:
  assumes "list_all P (stored s)" "0 \<le> i" "i < historyCount s"
  shows "P (historyBuffer s i)"
proof -
  have "historyBuffer s i \<in> set (stored s)" using assms(2,3) by (simp add: stored_def)
  with assms(1) show ?thesis by (simp add: list_all_iff)
qed

lemma list_all_tl: "list_all P xs \<Longrightarrow> list_all P (tl xs)"
  by (cases xs) auto

subsection \<open>The editor invariant, key by key\<close>

lemma editor_invI:
  "keycount s = length (buffer s) \<Longrightarrow> cstring (buffer s) \<Longrightarrow> line_matches s (buffer s) \<Longrightarrow>
   0 \<le> whereInHistory s \<Longrightarrow> whereInHistory s \<le> historyCount s \<Longrightarrow>
   list_all (\<lambda>entry. cstring entry \<and> line_matches s entry) (stored s) \<Longrightarrow>
   list_all (\<lambda>link. cstring (command link)) (head s) \<Longrightarrow>
   editor_inv s"
  by (simp add: editor_inv_def)

lemma editor_invD:
  assumes "editor_inv s"
  shows "keycount s = length (buffer s)" "cstring (buffer s)" "line_matches s (buffer s)"
    "0 \<le> whereInHistory s" "whereInHistory s \<le> historyCount s"
    "list_all (\<lambda>entry. cstring entry \<and> line_matches s entry) (stored s)"
    "list_all (\<lambda>link. cstring (command link)) (head s)"
  using assms by (simp_all add: editor_inv_def)

lemma editor_inv_output [simp]:
  "editor_inv (s\<lparr>trace := t\<rparr>) = editor_inv s"
  "editor_inv (putch c s) = editor_inv s"
  "editor_inv (puts str s) = editor_inv s"
  "editor_inv (EchoString p s) = editor_inv s"
  "editor_inv (EraseChars k s) = editor_inv s"
  "editor_inv (s\<lparr>leadinChar := b\<rparr>) = editor_inv s"
  "editor_inv (s\<lparr>showPrompt := b\<rparr>) = editor_inv s"
  "editor_inv (s\<lparr>echo := b\<rparr>) = editor_inv s"
  "editor_inv (s\<lparr>showSignOnBanner := b\<rparr>) = editor_inv s"
  by (rule editor_inv_frame; simp add: putch_def puts_def EchoString_trace EraseChars_trace)+

lemma keycount_buffer_update:
  "s\<lparr>keycount := k, buffer := line\<rparr> = s\<lparr>buffer := line, keycount := k\<rparr>"
  by (rule processor.equality) simp_all

text \<open>Replacing the line by one that matches.\<close>

lemma editor_inv_new_line:
  assumes "editor_inv s" "cstring line" "line_matches s line"
  shows "editor_inv (s\<lparr>buffer := line, keycount := length line\<rparr>)"
proof (rule editor_invI)
  note d = editor_invD [OF assms(1)]
  let ?s = "s\<lparr>buffer := line, keycount := length line\<rparr>"
  have lm: "line_matches ?s = line_matches s" by (rule ext) (simp add: line_matches_def)
  show "keycount ?s = length (buffer ?s)" by simp
  show "cstring (buffer ?s)" using assms(2) by simp
  show "line_matches ?s (buffer ?s)" using assms(3) lm by simp
  show "0 \<le> whereInHistory ?s" "whereInHistory ?s \<le> historyCount ?s" using d(4,5) by simp_all
  show "list_all (\<lambda>entry. cstring entry \<and> line_matches ?s entry) (stored ?s)"
    using d(6) lm by (simp add: stored_def)
  show "list_all (\<lambda>link. cstring (command link)) (head ?s)" using d(7) by simp
qed

lemma editor_inv_empty_line:
  "editor_inv s \<Longrightarrow> editor_inv (s\<lparr>buffer := [], keycount := 0\<rparr>)"
  using editor_inv_new_line [of s "[]"] by (simp add: cstring_def line_matches_def)

lemma on_escape_inv:
  assumes "editor_inv s" "on_escape s = Inr s'"
  shows "editor_inv s'"
proof -
  from assms(2) have "s' = (EraseChars (keycount s) s)\<lparr>keycount := 0, buffer := []\<rparr>"
    by (auto simp add: on_escape_def terminate_at_def split: if_splits)
  then have "s' = (s\<lparr>buffer := [], keycount := 0\<rparr>)\<lparr>trace := trace (EraseChars (keycount s) s)\<rparr>"
    by (simp add: EraseChars_trace)
  then show ?thesis using editor_inv_empty_line [OF assms(1)] by simp
qed

lemma on_backspace_inv:
  assumes "editor_inv s" "on_backspace s = Inr s'"
  shows "editor_inv s'"
proof (cases "keycount s = 0")
  case True
  with assms(2) have "s' = putch 0x07 s" by (simp add: on_backspace_def)
  then show ?thesis using assms(1) by simp
next
  case False
  note d = editor_invD [OF assms(1)]
  define line where "line = take (keycount s - 1) (buffer s)"
  from assms(2) False have "s' = EraseChars 1 (s\<lparr>keycount := keycount s - 1, buffer := line\<rparr>)"
    by (auto simp add: on_backspace_def terminate_at_def line_def split: if_splits)
  moreover have "keycount s - 1 = length line" using d(1) by (simp add: line_def)
  ultimately have s': "s' = EraseChars 1 (s\<lparr>buffer := line, keycount := length line\<rparr>)"
    by (simp add: keycount_buffer_update)
  have "cstring line" using d(2) by (auto simp add: line_def cstring_def dest: in_set_takeD)
  moreover have "line_matches s line" unfolding line_def using d(3) by (rule line_matches_take)
  ultimately show ?thesis using editor_inv_new_line [OF assms(1)] s' by simp
qed

lemma on_other_inv:
  assumes "editor_inv s" "on_other c got s = Inr s'"
  shows "editor_inv s'"
proof (cases "myisprint c \<and> int (keycount s) < bufferSize s")
  case False
  then have "s' = s\<lparr>trace := trace s @ [Putch 0x07]\<rparr>"
    using on_other_bell [OF False, of got] assms(2) by simp
  then show ?thesis using assms(1) by simp
next
  case True
  note d = editor_invD [OF assms(1)]
  have fit: "int (length (buffer s)) + 2 \<le> bufferSize s"
  proof (rule ccontr)
    assume "\<not> int (length (buffer s)) + 2 \<le> bufferSize s"
    then have "store_char (keycount s) (char_of c) s = Inl Overrun"
      using d(1) by (simp add: store_char_def)
    then have "on_other c got s = Inl Overrun" using True by (simp add: on_other_def)
    with assms(2) show False by simp
  qed
  have p: "myisprint c" using True by simp
  note r = on_other_printable [OF p d(1) fit d(2), of got]
  show ?thesis
  proof (cases "line_matches s (buffer s @ [char_of c])")
    case False
    then have "s' = s\<lparr>trace := trace s @ [Putch 0x07]\<rparr>" using r assms(2) by simp
    then show ?thesis using assms(1) by simp
  next
    case lm: True
    define line where "line = buffer s @ [char_of c]"
    have "s' = s\<lparr>buffer := line, keycount := keycount s + 1, trace := trace s @ [Putch c]\<rparr>"
      using r assms(2) lm by (simp add: line_def)
    moreover have "keycount s + 1 = length line" using d(1) by (simp add: line_def)
    ultimately have s': "s' = (s\<lparr>buffer := line, keycount := length line\<rparr>)
        \<lparr>trace := trace s @ [Putch c]\<rparr>" by simp
    have "cstring line"
      using d(2) printable_char(1) [OF p] by (simp add: line_def cstring_def)
    then show ?thesis
      using editor_inv_new_line [OF assms(1) _ lm [folded line_def]] s' by simp
  qed
qed

lemma on_tab_inv:
  assumes "editor_inv s" "on_tab got s = Inr s'"
  shows "editor_inv s'"
proof -
  note d = editor_invD [OF assms(1)]
  define hits where "hits = filter (\<lambda>link. agrees (caseinsensitive s) (typed_name (buffer s))
      (command link)) (head s)"
  note cm = CommandMatches_validate [OF d(2) hits_def, of got]
  show ?thesis
  proof (cases "buffer s \<noteq> [] \<and> length hits = 1")
    case False
    then have "s' = s" using assms(2) cm
      by (auto simp add: on_tab_def split: if_splits)
    then show ?thesis using assms(1) by simp
  next
    case True
    then obtain m where m: "hits = [m]" by (cases hits) auto
    then have "m \<in> set hits" by simp
    then have mh: "m \<in> set (head s)"
      and ag: "agrees (caseinsensitive s) (typed_name (buffer s)) (command m)"
      by (simp_all add: hits_def)
    have cm1: "CommandMatches False got s = Inr (1, Some m, Some (argument_of (buffer s)), s)"
      using cm True m by simp
    show ?thesis
    proof (cases "compareLength_of (buffer s) < length (command m)")
      case False
      then have "s' = s" using assms(2) cm1 by (simp add: on_tab_def)
      then show ?thesis using assms(1) by simp
    next
      case lt: True
      have le: "length (buffer s) \<le> length (command m)"
      proof (rule ccontr)
        assume "\<not> length (buffer s) \<le> length (command m)"
        then have "on_tab got s = Inl OutOfBounds" using cm1 lt by (simp add: on_tab_def)
        with assms(2) show False by simp
      qed
      define p where "p = drop (length (buffer s)) (command m)"
      define line where "line = buffer s @ p"
      have "mystrcat p s = Inr (s\<lparr>buffer := line\<rparr>)"
      proof (rule ccontr)
        assume "mystrcat p s \<noteq> Inr (s\<lparr>buffer := line\<rparr>)"
        then have "mystrcat p s = Inl Overrun"
          by (auto simp add: mystrcat_def line_def split: if_splits)
        then have "on_tab got s = Inl Overrun" using cm1 lt le by (simp add: on_tab_def p_def)
        with assms(2) show False by simp
      qed
      then have s': "s' = EchoString p (s\<lparr>buffer := line, keycount := length line\<rparr>)"
        using assms(2) cm1 lt le by (simp add: on_tab_def p_def [symmetric])
      have cn: "cstring (command m)" using d(7) mh by (simp add: list_all_iff)
      then have "cstring line"
        using d(2) by (auto simp add: line_def p_def cstring_def dest: in_set_dropD)
      moreover have "line_matches s line"
        using agrees_completed [OF ag le] mh
        by (auto simp add: line_def p_def line_matches_def list_ex_iff)
      ultimately show ?thesis using editor_inv_new_line [OF assms(1)] s' by simp
    qed
  qed
qed

lemma on_enter_inversion:
  assumes "buffer s \<noteq> []" "CommandMatches True got s = Inr (1, Some m, Some p, s1)"
    and "on_enter got s = Inr (val, s')"
  obtains s2 s3 where "call_callback m p s1 = Inr (val, s2)" "enter_history s2 = Inr s3"
    "s' = s3\<lparr>keycount := 0, buffer := [], showPrompt := True\<rparr>"
proof -
  from assms obtain s2 where cb: "call_callback m p s1 = Inr (val, s2)"
    by (auto simp add: on_enter_def split: sum.splits)
  from assms cb obtain s3 where eh: "enter_history s2 = Inr s3"
    by (auto simp add: on_enter_def split: sum.splits)
  from assms cb eh have "s' = s3\<lparr>keycount := 0, buffer := [], showPrompt := True\<rparr>"
    by (auto simp add: on_enter_def terminate_at_def split: sum.splits if_splits)
  with cb eh show ?thesis by (rule that)
qed

lemma on_enter_inv:
  assumes "editor_inv s" "on_enter got s = Inr (val, s')"
  shows "editor_inv s'"
proof (cases "buffer s = []")
  case True
  with assms(2) have "s' = (puts [] s)\<lparr>keycount := 0, buffer := [], showPrompt := True\<rparr>"
    by (auto simp add: on_enter_def terminate_at_def split: if_splits)
  then have "s' = (s\<lparr>buffer := [], keycount := 0\<rparr>)\<lparr>trace := trace s @ [Puts []], showPrompt := True\<rparr>"
    by (simp add: puts_def keycount_buffer_update)
  then show ?thesis using editor_inv_empty_line [OF assms(1)] by simp
next
  case ne: False
  note d = editor_invD [OF assms(1)]
  define hits where "hits = filter (\<lambda>link. agrees (caseinsensitive s) (typed_name (buffer s))
      (command link)) (head s)"
  show ?thesis
  proof (cases "length hits = 1")
    case False
    have "0 < bufferSize s"
    proof (rule ccontr)
      assume "\<not> 0 < bufferSize s"
      then have "on_enter got s = Inl Overrun"
        using CommandMatches_not_one [OF d(2) hits_def False, of got]
          CommandMatches_validate [OF d(2) hits_def, of got] ne False
        by (simp add: on_enter_def terminate_at_def puts_def)
      with assms(2) show False by simp
    qed
    from on_enter_not_one [OF d(2) ne this hits_def False, of got] assms(2)
    obtain t where "s' = s\<lparr>trace := t, keycount := 0, buffer := [], showPrompt := True\<rparr>"
      by auto
    then have "s' = (s\<lparr>buffer := [], keycount := 0\<rparr>)\<lparr>trace := t, showPrompt := True\<rparr>"
      by (simp add: keycount_buffer_update)
    then show ?thesis using editor_inv_empty_line [OF assms(1)] by simp
  next
    case True
    then obtain m where m: "hits = [m]" by (cases hits) auto
    then have "m \<in> set hits" by simp
    then have mh: "m \<in> set (head s)" by (simp add: hits_def)
    have cn: "cstring (command m)" using d(7) mh by (simp add: list_all_iff)
    from CommandMatches_one [OF d(2) ne m [unfolded hits_def], of got] assms(2) ne
    obtain p s1 where cm: "CommandMatches True got s = Inr (1, Some m, Some p, s1)"
      by (auto simp add: on_enter_def split: if_splits)
    from on_enter_inversion [OF ne cm assms(2)]
    obtain s2 s3 where cb: "call_callback m p s1 = Inr (val, s2)"
      and eh: "enter_history s2 = Inr s3"
      and s': "s' = s3\<lparr>keycount := 0, buffer := [], showPrompt := True\<rparr>"
      by blast
    from submit_frame [OF d(2) ne cm cb]
    obtain t e where s2: "s2 = s\<lparr>buffer := buffer s1, trace := t, echo := e\<rparr>" by blast
    have f: "buffer s2 = buffer s1" "historyBuffer s2 = historyBuffer s"
      "historyCount s2 = historyCount s" "historyDepth s2 = historyDepth s"
      "head s2 = head s" "caseinsensitive s2 = caseinsensitive s"
      "whereInHistory s2 = whereInHistory s"
      by (subst s2, simp)+
    have st2: "stored s2 = stored s" using f by (simp add: stored_def)
    have lcs: "cstring (buffer s1)" by (rule submitted_line(2) [OF d(2) ne cn cm])
    have llm: "line_matches s (buffer s1)"
      using CommandMatches_execute_result(3) [OF d(2) ne cm] d(3)
        line_matches_canonical [OF mh, of "argument_of (buffer s)"] by auto
    have lm: "line_matches s' = line_matches s"
      using enter_history_result [OF eh] f unfolding s' by (auto simp add: line_matches_def fun_eq_iff)
    have hd: "head s' = head s"
      using enter_history_result [OF eh] f unfolding s' by auto
    have st: "stored s' = stored s \<and> whereInHistory s' = whereInHistory s
          \<and> historyCount s' = historyCount s
        \<or> stored s' = stored s @ [buffer s1] \<and> whereInHistory s' = historyCount s
          \<and> historyCount s' = historyCount s + 1 \<and> 0 \<le> historyCount s
        \<or> stored s' = tl (stored s) @ [buffer s1] \<and> whereInHistory s' = historyDepth s - 1
          \<and> historyCount s' = historyDepth s \<and> 0 < historyDepth s"
      using enter_history_result [OF eh]
    proof (elim disjE conjE)
      assume "s3 = s2"
      then show ?thesis using f st2 unfolding s' by (simp add: stored_def)
    next
      assume a: "0 \<le> historyCount s2"
        and b: "s3 = s2\<lparr>historyBuffer := (historyBuffer s2)(historyCount s2 := buffer s2),
                  whereInHistory := historyCount s2, historyCount := historyCount s2 + 1\<rparr>"
      have "stored s3 = stored s2 @ [buffer s2]"
        unfolding b using a by (rule stored_push_free)
      moreover have "stored s' = stored s3" unfolding s' by (simp add: stored_def)
      ultimately show ?thesis using f st2 a b unfolding s' by simp
    next
      assume a: "0 < historyDepth s2" and c: "historyCount s2 = historyDepth s2"
        and b: "s3 = s2\<lparr>historyBuffer :=
                    (\<lambda>i. if 0 \<le> i \<and> i \<le> historyDepth s2 - 2 then historyBuffer s2 (i + 1)
                         else if i = historyDepth s2 - 1 then buffer s2 else historyBuffer s2 i),
                  whereInHistory := historyDepth s2 - 1, historyCount := historyDepth s2\<rparr>"
      have "stored s3 = tl (stored s2) @ [buffer s2]"
        unfolding b using a c by (rule stored_push_full)
      moreover have "stored s' = stored s3" unfolding s' by (simp add: stored_def)
      ultimately show ?thesis using f st2 a b unfolding s' by simp
    qed
    show ?thesis
    proof (rule editor_invI)
      show "keycount s' = length (buffer s')" "cstring (buffer s')" "line_matches s' (buffer s')"
        unfolding s' by (simp_all add: cstring_def line_matches_def)
      show "0 \<le> whereInHistory s'" "whereInHistory s' \<le> historyCount s'"
        using st d(4,5) by auto
      show "list_all (\<lambda>entry. cstring entry \<and> line_matches s' entry) (stored s')"
        using st d(6) lcs llm list_all_tl [OF d(6)] unfolding lm by auto
      show "list_all (\<lambda>link. cstring (command link)) (head s')" using d(7) hd by simp
    qed
  qed
qed

lemma ProcessStandardSequence_inv:
  assumes "editor_inv s" "ProcessStandardSequence c got s = Inr (r, s')"
  shows "editor_inv s'"
proof -
  consider "c = 0" | "c = 0x5B \<or> c = 0xE0" | "c = 0x09" | "c = 0x1B" | "c = 0x08"
    | "c = 0x0D \<or> c = 0x0A"
    | "c \<noteq> 0 \<and> c \<noteq> 0x5B \<and> c \<noteq> 0xE0 \<and> c \<noteq> 0x09 \<and> c \<noteq> 0x1B \<and> c \<noteq> 0x08 \<and> c \<noteq> 0x0D \<and> c \<noteq> 0x0A"
    by blast
  then show ?thesis
  proof cases
    case 1
    with assms show ?thesis by (simp add: ProcessStandardSequence_def)
  next
    case 2
    with assms show ?thesis by (auto simp add: ProcessStandardSequence_def)
  next
    case 3
    with assms(2) obtain s1 where "on_tab got s = Inr s1" "s' = s1"
      by (auto simp add: ProcessStandardSequence_def split: sum.splits)
    then show ?thesis using on_tab_inv [OF assms(1)] by simp
  next
    case 4
    with assms(2) obtain s1 where "on_escape s = Inr s1" "s' = s1"
      by (auto simp add: ProcessStandardSequence_def split: sum.splits)
    then show ?thesis using on_escape_inv [OF assms(1)] by simp
  next
    case 5
    with assms(2) obtain s1 where "on_backspace s = Inr s1" "s' = s1"
      by (auto simp add: ProcessStandardSequence_def split: sum.splits)
    then show ?thesis using on_backspace_inv [OF assms(1)] by simp
  next
    case 6
    with assms(2) have "on_enter got s = Inr (r, s')"
      by (auto simp add: ProcessStandardSequence_def)
    then show ?thesis by (rule on_enter_inv [OF assms(1)])
  next
    case 7
    with assms(2) obtain s1 where "on_other c got s = Inr s1" "s' = s1"
      by (auto simp add: ProcessStandardSequence_def split: sum.splits)
    then show ?thesis using on_other_inv [OF assms(1)] by simp
  qed
qed

lemma recall_inv:
  assumes "editor_inv s" "0 \<le> i" "i < historyCount s" "0 \<le> w" "w \<le> historyCount s"
    and "strcpy_buffer (historyBuffer s i) (EraseChars (keycount s) (s\<lparr>whereInHistory := w0\<rparr>)) = Inr s1"
  shows "editor_inv ((EchoString (buffer s1) s1)\<lparr>keycount := length (buffer s1), whereInHistory := w\<rparr>)"
proof -
  note d = editor_invD [OF assms(1)]
  define line where "line = historyBuffer s i"
  have ok: "cstring line \<and> line_matches s line"
    unfolding line_def using d(6) assms(2,3) by (rule stored_entry)
  from assms(6) have s1: "s1 = (EraseChars (keycount s) (s\<lparr>whereInHistory := w0\<rparr>))\<lparr>buffer := line\<rparr>"
    by (auto simp add: strcpy_buffer_def line_def split: if_splits)
  define s2 where "s2 = s\<lparr>buffer := line, keycount := length line\<rparr>"
  have i2: "editor_inv s2" unfolding s2_def using assms(1) ok by (simp add: editor_inv_new_line)
  note d2 = editor_invD [OF i2]
  let ?s = "(EchoString (buffer s1) s1)\<lparr>keycount := length (buffer s1), whereInHistory := w\<rparr>"
  have f: "keycount ?s = keycount s2" "buffer ?s = buffer s2" "head ?s = head s2"
    "caseinsensitive ?s = caseinsensitive s2" "historyCount ?s = historyCount s2"
    "historyBuffer ?s = historyBuffer s2" "whereInHistory ?s = w"
    by (simp_all add: s1 s2_def EchoString_trace EraseChars_trace)
  have lm: "line_matches ?s = line_matches s2"
    using f by (simp add: line_matches_def fun_eq_iff)
  have st: "stored ?s = stored s2" using f by (simp add: stored_def)
  show ?thesis
  proof (rule editor_invI)
    show "keycount ?s = length (buffer ?s)" using d2(1) f by simp
    show "cstring (buffer ?s)" using d2(2) f by simp
    show "line_matches ?s (buffer ?s)" using d2(3) f lm by simp
    show "0 \<le> whereInHistory ?s" "whereInHistory ?s \<le> historyCount ?s"
      using assms(4,5) f by (simp_all add: s2_def)
    show "list_all (\<lambda>entry. cstring entry \<and> line_matches ?s entry) (stored ?s)"
      using d2(6) unfolding lm st .
    show "list_all (\<lambda>link. cstring (command link)) (head ?s)" using d2(7) f by simp
  qed
qed

lemma editor_inv_index:
  assumes "editor_inv s" "0 \<le> w" "w \<le> historyCount s"
  shows "editor_inv (s\<lparr>whereInHistory := w\<rparr>)"
proof (rule editor_invI)
  note d = editor_invD [OF assms(1)]
  let ?s = "s\<lparr>whereInHistory := w\<rparr>"
  have lm: "line_matches ?s = line_matches s" by (simp add: line_matches_def fun_eq_iff)
  show "keycount ?s = length (buffer ?s)" "cstring (buffer ?s)" using d(1,2) by simp_all
  show "line_matches ?s (buffer ?s)" using d(3) lm by simp
  show "0 \<le> whereInHistory ?s" "whereInHistory ?s \<le> historyCount ?s" using assms(2,3) by simp_all
  show "list_all (\<lambda>entry. cstring entry \<and> line_matches ?s entry) (stored ?s)"
    using d(6) lm by (simp add: stored_def)
  show "list_all (\<lambda>link. cstring (command link)) (head ?s)" using d(7) by simp
qed

lemma ProcessComplexSequence_inv:
  assumes "editor_inv s" "ProcessComplexSequence c s = Inr (c', s')"
  shows "editor_inv s'"
proof -
  note d = editor_invD [OF assms(1)]
  consider (down) "c = 0x42 \<or> c = 0x50" | (up) "c = 0x41 \<or> c = 0x48"
    | (other) "c \<noteq> 0x42 \<and> c \<noteq> 0x50 \<and> c \<noteq> 0x41 \<and> c \<noteq> 0x48"
    by blast
  then show ?thesis
  proof cases
    case other
    with assms(2) have "s' = s\<lparr>leadinChar := False\<rparr>"
      by (auto simp add: ProcessComplexSequence_def)
    then show ?thesis using assms(1) by simp
  next
    case down
    show ?thesis
    proof (cases "historyCount s \<noteq> 0 \<and> whereInHistory s < historyCount s")
      case False
      with assms(2) down have "s' = s\<lparr>leadinChar := False\<rparr>"
        by (auto simp add: ProcessComplexSequence_def)
      then show ?thesis using assms(1) by simp
    next
      case True
      with assms(2) down obtain s1 where
        c: "strcpy_buffer (historyBuffer s (whereInHistory s)) (EraseChars (keycount s) s) = Inr s1"
        and s0: "s' = (EchoString (buffer s1) s1)\<lparr>keycount := length (buffer (EchoString (buffer s1) s1)),
            whereInHistory := whereInHistory (EchoString (buffer s1) s1) + 1,
            leadinChar := False\<rparr>"
        by (auto simp add: ProcessComplexSequence_def Let_def split: sum.splits)
      have s': "s' = (EchoString (buffer s1) s1)\<lparr>keycount := length (buffer s1),
            whereInHistory := whereInHistory (EchoString (buffer s1) s1) + 1,
            leadinChar := False\<rparr>"
        unfolding s0 by (simp add: EchoString_trace)
      from c have w1: "whereInHistory (EchoString (buffer s1) s1) = whereInHistory s"
        by (auto simp add: strcpy_buffer_def EchoString_trace EraseChars_trace split: if_splits)
      have c': "strcpy_buffer (historyBuffer s (whereInHistory s))
          (EraseChars (keycount s) (s\<lparr>whereInHistory := whereInHistory s\<rparr>)) = Inr s1"
        using c by simp
      have "editor_inv ((EchoString (buffer s1) s1)\<lparr>keycount := length (buffer s1),
          whereInHistory := whereInHistory s + 1\<rparr>)"
        using recall_inv [OF assms(1) d(4) _ _ _ c'] True d(4) by simp
      then show ?thesis unfolding s' w1 by simp
    qed
  next
    case up
    show ?thesis
    proof (cases "historyCount s \<noteq> 0 \<and> whereInHistory s - 1 \<ge> 0")
      case False
      with assms(2) up have "s' = s\<lparr>whereInHistory := 0, leadinChar := False\<rparr>"
        by (cases "historyCount s = 0") (auto simp add: ProcessComplexSequence_def Let_def)
      moreover have "editor_inv (s\<lparr>whereInHistory := 0\<rparr>)"
        using editor_inv_index [OF assms(1), of 0] d(4,5) by simp
      ultimately show ?thesis by simp
    next
      case True
      with assms(2) up obtain s1 where
        c: "strcpy_buffer (historyBuffer s (whereInHistory s - 1))
              (EraseChars (keycount s) (s\<lparr>whereInHistory := whereInHistory s - 1\<rparr>)) = Inr s1"
        and s0: "s' = (EchoString (buffer s1) s1)\<lparr>keycount := length (buffer (EchoString (buffer s1) s1)),
            leadinChar := False\<rparr>"
        by (auto simp add: ProcessComplexSequence_def Let_def split: sum.splits)
      have s': "s' = (EchoString (buffer s1) s1)\<lparr>keycount := length (buffer s1),
            leadinChar := False\<rparr>"
        unfolding s0 by (simp add: EchoString_trace)
      from c have w1: "whereInHistory (EchoString (buffer s1) s1) = whereInHistory s - 1"
        by (auto simp add: strcpy_buffer_def EchoString_trace EraseChars_trace split: if_splits)
      have "editor_inv ((EchoString (buffer s1) s1)\<lparr>keycount := length (buffer s1),
          whereInHistory := whereInHistory s - 1\<rparr>)"
        using recall_inv [OF assms(1) _ _ _ _ c] True d(5) by simp
      moreover have "(EchoString (buffer s1) s1)\<lparr>keycount := length (buffer s1),
          whereInHistory := whereInHistory s - 1\<rparr>
          = (EchoString (buffer s1) s1)\<lparr>keycount := length (buffer s1)\<rparr>"
        using w1 by (intro processor.equality) simp_all
      ultimately show ?thesis unfolding s' by simp
    qed
  qed
qed

lemma call_callback_inv:
  assumes "editor_inv s" "call_callback m p s = Inr (r, s')"
  shows "editor_inv s'"
proof -
  from call_callback_frame [OF assms(2)] obtain t e where "s' = s\<lparr>trace := t, echo := e\<rparr>"
    by blast
  then show ?thesis using assms(1) by simp
qed

lemma Run_inv:
  assumes "editor_inv s" "CommandProcessor_Run input got s = Inr (r, s')"
  shows "editor_inv s'"
proof -
  define s1 where "s1 = (if showSignOnBanner s
      then (case SignOnBanner s of
              None \<Rightarrow> Inl NullPointer
            | Some banner \<Rightarrow>
                (case call_callback banner [] s of
                   Inl e \<Rightarrow> Inl e
                 | Inr (r, s1) \<Rightarrow> Inr (s1\<lparr>showSignOnBanner := False\<rparr>)))
      else Inr s)"
  from assms(2) obtain sa where sa: "s1 = Inr sa"
    unfolding s1_def by (auto simp add: CommandProcessor_Run_def Let_def split: sum.splits)
  have pa: "port sa"
    using assms(2) sa unfolding s1_def
    by (auto simp add: CommandProcessor_Run_def Let_def split: if_splits)
  have ia: "editor_inv sa"
  proof (cases "showSignOnBanner s")
    case False
    with sa have "sa = s" by (simp add: s1_def)
    then show ?thesis using assms(1) by simp
  next
    case True
    with sa obtain banner r0 sb where "call_callback banner [] s = Inr (r0, sb)"
      and "sa = sb\<lparr>showSignOnBanner := False\<rparr>"
      by (auto simp add: s1_def split: option.splits sum.splits)
    then show ?thesis using call_callback_inv [OF assms(1)] by simp
  qed
  define s2 where "s2 = (if showPrompt sa \<and> echo sa
                     then (putch (ord CHR ''>'') sa)\<lparr>showPrompt := False\<rparr> else sa)"
  have i2: "editor_inv s2" using ia by (simp add: s2_def)
  have run: "CommandProcessor_Run input got s =
      (case input of
         None \<Rightarrow> Inr (runok, s2)
       | Some c0 \<Rightarrow>
           (case (if leadinChar s2 then ProcessComplexSequence c0 s2 else Inr (c0, s2)) of
              Inl e \<Rightarrow> Inl e
            | Inr (c, s3) \<Rightarrow>
                (case ProcessStandardSequence c got s3 of
                   Inl e \<Rightarrow> Inl e
                 | Inr (r, s4) \<Rightarrow> Inr (runok, s4))))"
    using sa pa unfolding s1_def s2_def by (simp add: CommandProcessor_Run_def Let_def)
  show ?thesis
  proof (cases input)
    case None
    with run assms(2) have "s' = s2" by simp
    then show ?thesis using i2 by simp
  next
    case (Some c0)
    with run assms(2) obtain c s3 r4 where
      a: "(if leadinChar s2 then ProcessComplexSequence c0 s2 else Inr (c0, s2)) = Inr (c, s3)"
      and b: "ProcessStandardSequence c got s3 = Inr (r4, s')"
      by (auto split: sum.splits)
    have "editor_inv s3"
    proof (cases "leadinChar s2")
      case True
      with a have "ProcessComplexSequence c0 s2 = Inr (c, s3)" by simp
      then show ?thesis by (rule ProcessComplexSequence_inv [OF i2])
    next
      case False
      with a have "s3 = s2" by simp
      then show ?thesis using i2 by simp
    qed
    then show ?thesis using b by (rule ProcessStandardSequence_inv)
  qed
qed

lemma console_inv:
  assumes "list_all (\<lambda>link. cstring (command link)) links"
  shows "editor_inv (console links len depth)"
  using assms
  by (simp add: editor_inv_def console_def at_start_def line_matches_def cstring_def stored_def)

lemma Add_agrees_kept:
  assumes "line_matches s buf" "set (head s) \<subseteq> set (head s')" "caseinsensitive s' = caseinsensitive s"
  shows "line_matches s' buf"
  using assms by (auto simp add: line_matches_def list_ex_iff)

lemma Add_head:
  "set (head s) \<subseteq> set (head (snd (CommandProcessor_Add menu got s)))
   \<and> set (head (snd (CommandProcessor_Add menu got s))) \<subseteq> insert menu (set (head s))"
proof -
  have "set (take k xs @ menu # drop k xs) = insert menu (set xs)" for k and xs :: "CMD_T list"
  proof -
    have "set (take k xs @ menu # drop k xs) = insert menu (set (take k xs @ drop k xs))"
      by (simp only: set_append set_simps) blast
    then show ?thesis by simp
  qed
  then show ?thesis
    by (auto simp add: CommandProcessor_Add_def Let_def)
qed

lemma Add_frame:
  "caseinsensitive (snd (CommandProcessor_Add menu got s)) = caseinsensitive s"
  "buffer (snd (CommandProcessor_Add menu got s)) = buffer s"
  "keycount (snd (CommandProcessor_Add menu got s)) = keycount s"
  "historyBuffer (snd (CommandProcessor_Add menu got s)) = historyBuffer s"
  "historyCount (snd (CommandProcessor_Add menu got s)) = historyCount s"
  "whereInHistory (snd (CommandProcessor_Add menu got s)) = whereInHistory s"
  by (simp_all add: CommandProcessor_Add_def Let_def)

lemma Add_inv:
  assumes "editor_inv s" "cstring (command menu)"
  shows "editor_inv (snd (CommandProcessor_Add menu got s))"
proof (rule editor_invI)
  note d = editor_invD [OF assms(1)]
  let ?s = "snd (CommandProcessor_Add menu got s)"
  have sub: "set (head s) \<subseteq> set (head ?s)" using Add_head by blast
  have keep: "line_matches s buf \<Longrightarrow> line_matches ?s buf" for buf
    by (rule Add_agrees_kept [OF _ sub Add_frame(1)])
  show "keycount ?s = length (buffer ?s)" "cstring (buffer ?s)"
    using d(1,2) by (simp_all add: Add_frame)
  show "line_matches ?s (buffer ?s)" using keep [OF d(3)] by (simp add: Add_frame)
  show "0 \<le> whereInHistory ?s" "whereInHistory ?s \<le> historyCount ?s"
    using d(4,5) by (simp_all add: Add_frame)
  have "stored ?s = stored s" by (simp add: stored_def Add_frame)
  then show "list_all (\<lambda>entry. cstring entry \<and> line_matches ?s entry) (stored ?s)"
    using d(6) keep by (auto simp add: list_all_iff)
  show "list_all (\<lambda>link. cstring (command link)) (head ?s)"
    using d(7) assms(2) Add_head [of s menu got] by (auto simp add: list_all_iff)
qed

lemma feed_inv:
  assumes "editor_inv s" "feed cs s = Inr s'"
  shows "editor_inv s'"
  using assms
proof (induction cs arbitrary: s)
  case Nil
  then show ?case by simp
next
  case (Cons c cs)
  from Cons.prems(2) obtain r s1 where
    a: "CommandProcessor_Run (Some c) True s = Inr (r, s1)" and b: "feed cs s1 = Inr s'"
    by (auto split: sum.splits)
  from Run_inv [OF Cons.prems(1) a] b show ?case by (rule Cons.IH)
qed

subsection \<open>The line buffer after Init\<close>

text \<open>
  \<open>Init\<close> without a banner and without options, given the four I/O functions and storage for
  both buffers: the line buffer holds the bytes of its new allocation.
\<close>

lemma Init_plain:
  "CommandProcessor_Init None 0 len depth True [] fresh_line fresh_history at_start
     = (initok, (console [] (if len < 6 then 6 else len) depth)
                  \<lparr>buffer := fresh_line, historyBuffer := fresh_history\<rparr>)"
  by (simp add: CommandProcessor_Init_def console_def at_start_def Let_def)

text \<open>
  Claim C8: after every input byte that Run processes (a printable character appended or
  rejected, backspace, tab completion, escape, submit, or a history recall), the line buffer
  is empty or matches at least one registered command's name, compared up to the buffer's
  first space under the configured case rule.

  The code does not establish this. \<open>Init\<close> allocates the line buffer and never writes to
  it, while \<open>keycount\<close> starts at zero: until a byte makes the editor write the terminator,
  the buffer holds the bytes its allocation happened to hold, and tab completion and
  submit read them as the typed line. With the bytes \<open>zz\<close> there and the one command
  \<open>Help\<close> registered, the first byte TAB is processed without a fault and leaves the
  buffer holding \<open>zz\<close>, which is not empty and matches no command. (From a state in
  which the buffer does hold a matching line of \<open>keycount\<close> characters, a call of Run that
  returns keeps it so: \<open>Run_inv\<close>.)
\<close>

theorem first_byte_reads_the_unwritten_line_buffer:
  "CommandProcessor_Init None 0 80 5 True [] ''zz'' (\<lambda>i. []) at_start
     = (initok, (console [] 80 5)\<lparr>buffer := ''zz''\<rparr>)
   \<and> CommandProcessor_Add (plain ''Help'') True ((console [] 80 5)\<lparr>buffer := ''zz''\<rparr>)
     = (addok, (console [plain ''Help''] 80 5)\<lparr>buffer := ''zz'', longestCommand := 4\<rparr>)
   \<and> CommandProcessor_Run (Some 0x09) True
        ((console [plain ''Help''] 80 5)\<lparr>buffer := ''zz'', longestCommand := 4\<rparr>)
     = Inr (runok, (console [plain ''Help''] 80 5)\<lparr>buffer := ''zz'', longestCommand := 4\<rparr>)
   \<and> buffer ((console [plain ''Help''] 80 5)\<lparr>buffer := ''zz'', longestCommand := 4\<rparr>) \<noteq> []
   \<and> \<not> list_ex
         (\<lambda>link. agrees
            (caseinsensitive ((console [plain ''Help''] 80 5)\<lparr>buffer := ''zz'', longestCommand := 4\<rparr>))
            (typed_name (buffer ((console [plain ''Help''] 80 5)\<lparr>buffer := ''zz'', longestCommand := 4\<rparr>)))
            (command link))
         (head ((console [plain ''Help''] 80 5)\<lparr>buffer := ''zz'', longestCommand := 4\<rparr>))"
proof -
  define s where "s = (console [plain ''Help''] 80 5)\<lparr>buffer := ''zz'', longestCommand := 4\<rparr>"
  have fields: "head s = [plain ''Help'']" "\<not> caseinsensitive s" "buffer s = ''zz''"
    "\<not> showSignOnBanner s" "\<not> echo s" "\<not> leadinChar s" "port s"
    by (simp_all add: s_def console_def at_start_def)
  have init: "CommandProcessor_Init None 0 80 5 True [] ''zz'' (\<lambda>i. []) at_start
     = (initok, (console [] 80 5)\<lparr>buffer := ''zz''\<rparr>)"
    by (simp add: Init_plain) (simp add: console_def at_start_def)
  have add: "CommandProcessor_Add (plain ''Help'') True ((console [] 80 5)\<lparr>buffer := ''zz''\<rparr>)
     = (addok, s)"
    by (simp add: CommandProcessor_Add_def s_def console_def at_start_def plain_def)
  have cs: "cstring (buffer s)" by (simp add: fields cstring_def NUL_def)
  have tn: "typed_name (buffer s) = ''zz''" by (simp add: fields typed_name_def)
  have hits: "[] = filter (\<lambda>link. agrees (caseinsensitive s) (typed_name (buffer s)) (command link))
      (head s)"
    by (simp add: tn) (simp add: fields agrees_def plain_def)
  have cm: "CommandMatches False True s = Inr (0, None, None, s)"
    using CommandMatches_validate [OF cs hits, of True] by (simp add: fields)
  have tab: "on_tab True s = Inr s" by (simp add: on_tab_def cm)
  have run: "CommandProcessor_Run (Some 0x09) True s = Inr (runok, s)"
    using fields(6) by (simp add: Run_quiet [OF fields(4,5,7)] ProcessStandardSequence_def tab)
  have ne: "buffer s \<noteq> []" by (simp add: fields)
  have no: "\<not> list_ex (\<lambda>link. agrees (caseinsensitive s) (typed_name (buffer s)) (command link))
      (head s)"
    by (simp add: tn) (simp add: fields agrees_def plain_def)
  show ?thesis using init add run ne no unfolding s_def by blast
qed

end
